theory Spec2Isabelle
  imports Complex_Main "HOL-Library.Sublist" "HOL-Library.Multiset"
begin

section \<open>Data model of the clustering store\<close>

text \<open>
  The clusterer of \<^verbatim>\<open>src/clustering/ArangoGraphClusterer.ts\<close> works on one ArangoDB
  collection, \<^verbatim>\<open>objects\<close>. A document is a JavaScript object with a \<^verbatim>\<open>type\<close> tag; the
  three variants share the fields the clusterer reads, so one record with a tag models
  them. The enums come from the package openskidata-format: \<^verbatim>\<open>SourceType\<close> has the two
  values the formatter of \<^verbatim>\<open>src/transforms/SkiAreaFormatter.ts\<close> switches on, and
  \<^verbatim>\<open>Activity\<close> has the two ski area activities and one more.
\<close>

datatype MapObjectType = SkiArea | Lift | Run

datatype Activity = Downhill | Nordic | Backcountry

datatype SourceType = OPENSTREETMAP | SKIMAP_ORG

datatype Status = Operating | Abandoned | Disused | Proposed

type_synonym position = "rat \<times> rat"

datatype Geometry =
    Point position
  | LineString "position list"
  | Polygon "position list list"
  | MultiPolygon "position list list list"

text \<open>
  The \<^verbatim>\<open>properties\<close> of a ski area. Statistics, run convention and location are values of
  collaborators outside the clusterer; they are carried as opaque strings.
\<close>

record SkiAreaProperties =
  prop_id :: string
  name :: "string option"
  generated :: bool
  prop_activities :: "Activity list"
  status :: Status
  sources :: "(SourceType \<times> string) list"
  runConvention :: string
  website :: "string option"
  location :: "string option"
  statistics :: "string option"

text \<open>
  A document of the collection. \<open>key\<close> is \<^verbatim>\<open>_key\<close>, \<open>ident\<close> is \<^verbatim>\<open>id\<close> and \<open>otype\<close> is
  \<^verbatim>\<open>type\<close>. The optional booleans of the source are \<open>False\<close> when absent: the
  queries compare them with \<^verbatim>\<open>== true\<close> and \<^verbatim>\<open>!= true\<close>.
\<close>

record MapObject =
  key :: string
  ident :: string
  otype :: MapObjectType
  geometry :: Geometry
  activities :: "Activity list"
  source :: SourceType
  skiAreas :: "string list"
  isInSkiAreaPolygon :: bool
  isBasisForNewSkiArea :: bool
  isInSkiAreaSite :: bool
  isPolygon :: bool
  properties :: SkiAreaProperties

type_synonym store = "MapObject list"

datatype error =
    NoIdForSkiArea
  | AssertionError string
  | UnexpectedVisitAreaGeometryType
  | QueryError string
  | NoActivitiesForRun
  | NoCentroid
  | DocumentNotFound string
  | UniqueConstraintViolated string

text \<open>
  What the clusterer takes from outside: the geometric predicates of the database, the
  error the database raises on a geometry it rejects, turf's buffer and centroid, the
  run convention, the statistics, the geocoder (absent, or a function that may fail),
  the composer of merged ski areas, the identifiers \<^verbatim>\<open>uuid()\<close> returns, in the
  order of the calls, and the order in which the database answers the calls of the ski
  areas of a batch (\<open>schedule\<close>, by phase and batch; see the section on batches).
\<close>

record Env =
  geoIntersects :: "Geometry \<Rightarrow> Geometry \<Rightarrow> bool"
  geoContains :: "Geometry \<Rightarrow> Geometry \<Rightarrow> bool"
  queryFailure :: "Geometry \<Rightarrow> string option"
  bufferGeometry :: "Geometry \<Rightarrow> rat \<Rightarrow> Geometry option"
  centroid :: "Geometry list \<Rightarrow> Geometry option"
  getRunConvention :: "Geometry \<Rightarrow> string"
  skiAreaStatistics :: "MapObject list \<Rightarrow> string"
  geocoder :: "(Geometry \<Rightarrow> string option) option"
  mergeSkiAreaObjects :: "MapObject list \<Rightarrow> MapObject option"
  uuid :: "nat \<Rightarrow> string"
  schedule :: "nat \<Rightarrow> nat \<Rightarrow> nat list"

text \<open>
  The visit context. The array \<^verbatim>\<open>alreadyVisited\<close> is shared by every copy of a context
  (the spread \<^verbatim>\<open>{...context}\<close> copies the reference), so the traversal threads it as a
  state of its own, beside the context.
\<close>

record VisitContext =
  ctx_id :: string
  ctx_activities :: "Activity list"
  excludeObjectsAlreadyInSkiAreaPolygon :: bool
  searchPolygon :: "Geometry option"

datatype GeoMatch = Intersects | Contains

definition maxDistanceInKilometers :: rat where
  "maxDistanceInKilometers = 1 / 2"

definition allSkiAreaActivities :: "Activity list" where
  "allSkiAreaActivities = [Downhill, Nordic]"

section \<open>Store operations\<close>

definition hasKey :: "string \<Rightarrow> store \<Rightarrow> bool" where
  "hasKey k s = (\<exists>object \<in> set s. key object = k)"

text \<open>\<^verbatim>\<open>objectsCollection.remove({_key})\<close>: raises when no document has the key.\<close>

definition collection_remove :: "string \<Rightarrow> store \<Rightarrow> error + store" where
  "collection_remove k s =
     (if hasKey k s then Inr (filter (\<lambda>object. key object \<noteq> k) s)
      else Inl (DocumentNotFound k))"

text \<open>\<^verbatim>\<open>objectsCollection.removeByKeys(keys)\<close>: missing keys are ignored.\<close>

definition collection_removeByKeys :: "string list \<Rightarrow> store \<Rightarrow> store" where
  "collection_removeByKeys ks s = filter (\<lambda>object. key object \<notin> set ks) s"

text \<open>
  \<^verbatim>\<open>objectsCollection.update(selector, patch)\<close>: the patch is a function on the stored
  document; the key of a document never changes.
\<close>

definition collection_update ::
  "string \<Rightarrow> (MapObject \<Rightarrow> MapObject) \<Rightarrow> store \<Rightarrow> error + store" where
  "collection_update k patch s =
     (if hasKey k s
      then Inr (map (\<lambda>object. if key object = k then (patch object)\<lparr>key := k\<rparr> else object) s)
      else Inl (DocumentNotFound k))"

text \<open>\<^verbatim>\<open>objectsCollection.save(document)\<close>: raises when the key is taken.\<close>

definition collection_save :: "MapObject \<Rightarrow> store \<Rightarrow> error + store" where
  "collection_save object s =
     (if hasKey (key object) s then Inl (UniqueConstraintViolated (key object))
      else Inr (s @ [object]))"

text \<open>
  AQL's \<^verbatim>\<open>APPEND(array, values, true)\<close> adds the values the array does not hold, each
  once; \<^verbatim>\<open>REMOVE_VALUES(array, values)\<close> drops every occurrence of the values.
\<close>

definition aqlAppendUnique :: "string list \<Rightarrow> string list \<Rightarrow> string list" where
  "aqlAppendUnique xs vs = xs @ filter (\<lambda>v. v \<notin> set xs) (remdups vs)"

definition aqlRemoveValues :: "string list \<Rightarrow> string list \<Rightarrow> string list" where
  "aqlRemoveValues xs vs = filter (\<lambda>x. x \<notin> set vs) xs"

fun includesStr :: "string \<Rightarrow> string \<Rightarrow> bool" where
  "includesStr [] sub = (sub = [])"
| "includesStr (c # cs) sub = (prefix sub (c # cs) \<or> includesStr cs sub)"

definition isInvalidGeometryError :: "string \<Rightarrow> bool" where
  "isInvalidGeometryError errorMessage =
     (includesStr errorMessage ''Polygon is not valid'' \<or>
      includesStr errorMessage ''Invalid loop in polygon'' \<or>
      includesStr errorMessage ''Loop not closed'')"

definition geoMatches :: "Env \<Rightarrow> GeoMatch \<Rightarrow> Geometry \<Rightarrow> Geometry \<Rightarrow> bool" where
  "geoMatches env match area g =
     (case match of Intersects \<Rightarrow> geoIntersects env area g
                  | Contains \<Rightarrow> geoContains env area g)"

text \<open>
  \<^verbatim>\<open>findNearbyObjects\<close>: the query, the push of every found key onto
  \<^verbatim>\<open>alreadyVisited\<close>, and the recovery from an invalid geometry (an empty result,
  nothing pushed). Any other failure of the query is raised again.
\<close>

definition nearbyFilter ::
  "Env \<Rightarrow> Geometry \<Rightarrow> GeoMatch \<Rightarrow> VisitContext \<Rightarrow> string list \<Rightarrow> MapObject \<Rightarrow> bool" where
  "nearbyFilter env area match context alreadyVisited object =
     (geoMatches env match area (geometry object) \<and>
      ctx_id context \<notin> set (skiAreas object) \<and>
      key object \<notin> set alreadyVisited \<and>
      (if excludeObjectsAlreadyInSkiAreaPolygon context
       then \<not> isInSkiAreaPolygon object else True) \<and>
      list_ex (\<lambda>activity. activity \<in> set (ctx_activities context)) (activities object))"

definition findNearbyObjects ::
  "Env \<Rightarrow> store \<Rightarrow> Geometry \<Rightarrow> GeoMatch \<Rightarrow> VisitContext \<Rightarrow> string list
     \<Rightarrow> error + (MapObject list \<times> string list)" where
  "findNearbyObjects env s area match context alreadyVisited =
     (case queryFailure env area of
        Some errorMessage \<Rightarrow>
          if isInvalidGeometryError errorMessage then Inr ([], alreadyVisited)
          else Inl (QueryError errorMessage)
      | None \<Rightarrow>
          (let allFound = filter (nearbyFilter env area match context alreadyVisited) s
           in Inr (allFound, alreadyVisited @ map key allFound)))"

section \<open>Results\<close>

text \<open>
  A call either returns, raises, or (for the loops that are bounded by a step count
  here) is cut off by the bound: \<open>Some (Inr x)\<close>, \<open>Some (Inl e)\<close> and \<open>None\<close>.
  \<open>bindR\<close> is the sequencing of \<^verbatim>\<open>await\<close>: the first exception ends the chain.
\<close>

type_synonym 'a result = "(error + 'a) option"

definition bindR :: "'a result \<Rightarrow> ('a \<Rightarrow> 'b result) \<Rightarrow> 'b result" where
  "bindR m f = (case m of None \<Rightarrow> None | Some (Inl e) \<Rightarrow> Some (Inl e) | Some (Inr x) \<Rightarrow> f x)"

lemma bindR_cong [fundef_cong]:
  "m = m' \<Longrightarrow> (\<And>x. m' = Some (Inr x) \<Longrightarrow> f x = f' x) \<Longrightarrow> bindR m f = bindR m' f'"
  by (auto simp: bindR_def split: option.splits sum.splits)

section \<open>The traversal\<close>

text \<open>
  \<^verbatim>\<open>visitObject\<close> and \<^verbatim>\<open>visitPolygon\<close> call each other; the loops of the source (over the
  polygons of a MultiPolygon, over the objects a query found) are \<open>visitPolygons\<close> and
  \<open>visitObjects\<close>. The first argument bounds the depth of the recursion, and the
  fifth is \<^verbatim>\<open>alreadyVisited\<close>; a returned pair is the list of found objects and the
  final \<^verbatim>\<open>alreadyVisited\<close>.
\<close>

definition searchAreaOf :: "Env \<Rightarrow> VisitContext \<Rightarrow> MapObject \<Rightarrow> Geometry option" where
  "searchAreaOf env context object =
     (case searchPolygon context of
        Some p \<Rightarrow> Some p
      | None \<Rightarrow> bufferGeometry env (geometry object) maxDistanceInKilometers)"

definition objectContextOf :: "VisitContext \<Rightarrow> MapObject \<Rightarrow> VisitContext" where
  "objectContextOf context object =
     context\<lparr>ctx_activities :=
       filter (\<lambda>activity. activity \<in> set (activities object)) (ctx_activities context)\<rparr>"

function (sequential) visitObject ::
  "nat \<Rightarrow> Env \<Rightarrow> store \<Rightarrow> VisitContext \<Rightarrow> string list \<Rightarrow> MapObject
     \<Rightarrow> (MapObject list \<times> string list) result"
and visitPolygon ::
  "nat \<Rightarrow> Env \<Rightarrow> store \<Rightarrow> VisitContext \<Rightarrow> string list \<Rightarrow> Geometry
     \<Rightarrow> (MapObject list \<times> string list) result"
and visitPolygons ::
  "nat \<Rightarrow> Env \<Rightarrow> store \<Rightarrow> VisitContext \<Rightarrow> string list \<Rightarrow> position list list list
     \<Rightarrow> (MapObject list \<times> string list) result"
and visitObjects ::
  "nat \<Rightarrow> Env \<Rightarrow> store \<Rightarrow> VisitContext \<Rightarrow> string list \<Rightarrow> MapObject list
     \<Rightarrow> (MapObject list \<times> string list) result"
where
  "visitObject 0 env s context visited object = None"
| "visitObject (Suc n) env s context visited object =
     (case searchAreaOf env context object of
        None \<Rightarrow> Some (Inr ([object], visited))
      | Some (Polygon cs) \<Rightarrow>
          bindR (visitPolygon n env s (objectContextOf context object) visited (Polygon cs))
            (\<lambda>(found, visited'). Some (Inr (object # found, visited')))
      | Some (MultiPolygon css) \<Rightarrow>
          bindR (visitPolygons n env s (objectContextOf context object) visited css)
            (\<lambda>(found, visited'). Some (Inr (object # found, visited')))
      | Some _ \<Rightarrow> Some (Inl UnexpectedVisitAreaGeometryType))"
| "visitPolygon n env s context visited g =
     (case findNearbyObjects env s g
             (if searchPolygon context \<noteq> None then Contains else Intersects) context visited of
        Inl e \<Rightarrow> Some (Inl e)
      | Inr (objects, visited') \<Rightarrow>
          if searchPolygon context \<noteq> None then Some (Inr (objects, visited'))
          else visitObjects n env s context visited' objects)"
| "visitPolygons n env s context visited [] = Some (Inr ([], visited))"
| "visitPolygons n env s context visited (cs # css) =
     bindR (visitPolygon n env s context visited (Polygon cs)) (\<lambda>(found, visited').
       bindR (visitPolygons n env s context visited' css) (\<lambda>(found', visited'').
         Some (Inr (found @ found', visited''))))"
| "visitObjects n env s context visited [] = Some (Inr ([], visited))"
| "visitObjects n env s context visited (object # objects) =
     bindR (visitObject n env s context visited object) (\<lambda>(found, visited').
       bindR (visitObjects n env s context visited' objects) (\<lambda>(found', visited'').
         Some (Inr (found @ found', visited''))))"
  by pat_completeness auto

termination
  by (relation "measures
        [\<lambda>x. case x of Inl (Inl (n, _)) \<Rightarrow> n | Inl (Inr (n, _)) \<Rightarrow> n
                     | Inr (Inl (n, _)) \<Rightarrow> n | Inr (Inr (n, _)) \<Rightarrow> n,
         \<lambda>x. case x of Inl (Inl _) \<Rightarrow> 0 | Inl (Inr _) \<Rightarrow> 2
                     | Inr (Inl _) \<Rightarrow> 3 | Inr (Inr _) \<Rightarrow> (1::nat),
         \<lambda>x. case x of Inl _ \<Rightarrow> 0
                     | Inr (Inl (n, env, s, c, v, css)) \<Rightarrow> length css
                     | Inr (Inr (n, env, s, c, v, os)) \<Rightarrow> length os]")
     auto

text \<open>
  A traversal over a store of \<open>length s\<close> documents never nests deeper than
  \<open>length s\<close> visits below its seed (lemma \<open>visitObject_returns\<close> below), so this
  bound never cuts a traversal off.
\<close>

definition traverse ::
  "Env \<Rightarrow> store \<Rightarrow> VisitContext \<Rightarrow> MapObject \<Rightarrow> MapObject list result" where
  "traverse env s context object =
     bindR (visitObject (Suc (length s)) env s context [key object] object)
       (\<lambda>(found, visited). Some (Inr found))"

text \<open>
  What a traversal step adds: \<open>reached s acts visited found visited'\<close> says that
  \<open>visited'\<close> is \<open>visited\<close> followed by the keys of \<open>found\<close> (in some order),
  none of them visited before, that the found objects are documents of the store with
  an activity among \<open>acts\<close>, and that no key is found twice when the keys of the
  store are unique.
\<close>

definition reached ::
  "store \<Rightarrow> Activity list \<Rightarrow> string list \<Rightarrow> MapObject list \<Rightarrow> string list \<Rightarrow> bool" where
  "reached s acts visited found visited' \<longleftrightarrow>
     (\<exists>new. visited' = visited @ new \<and> mset (map key found) = mset new \<and>
            set found \<subseteq> set s \<and> set new \<inter> set visited = {} \<and>
            (distinct (map key s) \<longrightarrow> distinct new) \<and>
            (\<forall>x \<in> set found. \<exists>a \<in> set (activities x). a \<in> set acts))"

section \<open>Queries and updates of the phases\<close>

text \<open>
  \<^verbatim>\<open>markSkiArea\<close>: one AQL update over every document whose key is a key of
  \<^verbatim>\<open>objects\<close>.
\<close>

definition markSkiArea :: "string \<Rightarrow> bool \<Rightarrow> MapObject list \<Rightarrow> store \<Rightarrow> store" where
  "markSkiArea id' isInPolygon objects s =
     map (\<lambda>object.
            if key object \<in> set (map key objects)
            then object\<lparr>isBasisForNewSkiArea := False,
                        isInSkiAreaPolygon := (isInSkiAreaPolygon object \<or> isInPolygon),
                        skiAreas := aqlAppendUnique (skiAreas object) [id']\<rparr>
            else object) s"

definition getSkiAreasByID :: "string list \<Rightarrow> store \<Rightarrow> MapObject list" where
  "getSkiAreasByID ids s = filter (\<lambda>object. ident object \<in> set ids) s"

text \<open>
  \<^verbatim>\<open>getSkiAreas\<close>: the cursor holds the result of the query at the time of the call.
  With \<^verbatim>\<open>onlyInPolygon\<close> the query is geometric and may fail; on an invalid geometry
  the cursor is empty.
\<close>

definition getSkiAreas ::
  "Env \<Rightarrow> SourceType option \<Rightarrow> bool \<Rightarrow> Geometry option \<Rightarrow> store \<Rightarrow> MapObject list result" where
  "getSkiAreas env onlySource onlyPolygons onlyInPolygon' s =
     (let selected = filter (\<lambda>object.
            (case onlyInPolygon' of
               Some area \<Rightarrow> geoIntersects env area (geometry object)
             | None \<Rightarrow> True) \<and>
            otype object = SkiArea \<and>
            (case onlySource of Some src \<Rightarrow> source object = src | None \<Rightarrow> True) \<and>
            (if onlyPolygons then isPolygon object else True)) s
      in case onlyInPolygon' of
           None \<Rightarrow> Some (Inr selected)
         | Some area \<Rightarrow>
             (case queryFailure env area of
                None \<Rightarrow> Some (Inr selected)
              | Some errorMessage \<Rightarrow>
                  if isInvalidGeometryError errorMessage then Some (Inr [])
                  else Some (Inl (QueryError errorMessage))))"

definition getObjects :: "string \<Rightarrow> store \<Rightarrow> MapObject list" where
  "getObjects skiAreaID s =
     filter (\<lambda>object. skiAreaID \<in> set (skiAreas object) \<and> otype object \<noteq> SkiArea) s"

section \<open>Phase 0: ambiguous duplicates\<close>

definition isPolygonal :: "Geometry \<Rightarrow> bool" where
  "isPolygonal g = (case g of Polygon _ \<Rightarrow> True | MultiPolygon _ \<Rightarrow> True | _ \<Rightarrow> False)"

definition removeAmbiguousDuplicateSkiArea :: "Env \<Rightarrow> store \<Rightarrow> MapObject \<Rightarrow> store result" where
  "removeAmbiguousDuplicateSkiArea env s skiArea =
     (if \<not> isPolygonal (geometry skiArea)
      then Some (Inl (AssertionError
        ''getSkiAreas query should have only returned ski areas with a Polygon geometry.''))
      else bindR (getSkiAreas env (Some SKIMAP_ORG) False (Some (geometry skiArea)) s)
        (\<lambda>otherSkiAreas.
           if length otherSkiAreas > 1 then Some (collection_remove (key skiArea) s)
           else Some (Inr s)))"

section \<open>Phases 1 to 3: assigning objects to ski areas\<close>

record AssignOptions =
  onlySource :: SourceType
  mergeWithOtherSourceIfNearby :: bool
  removeIfNoObjectsFound :: bool
  removeIfSubstantialNumberOfObjectsInSkiAreaSite :: bool
  onlyIfNotAlreadyAssignedToPolygon :: bool
  onlyInPolygon :: bool

definition maxMergeDistanceInKilometers :: rat where
  "maxMergeDistanceInKilometers = 1 / 4"

definition getSkiAreasToMerge :: "Env \<Rightarrow> store \<Rightarrow> MapObject \<Rightarrow> MapObject list result" where
  "getSkiAreasToMerge env s skiArea =
     (case bufferGeometry env (geometry skiArea) maxMergeDistanceInKilometers of
        None \<Rightarrow> Some (Inr [])
      | Some buffer \<Rightarrow>
          bindR (Some (findNearbyObjects env s buffer Intersects
                   \<lparr>ctx_id = ident skiArea, ctx_activities = activities skiArea,
                    excludeObjectsAlreadyInSkiAreaPolygon = False, searchPolygon = None\<rparr> []))
            (\<lambda>(nearbyObjects, visited).
               let otherSkiAreaIDs = remdups (concat (map skiAreas nearbyObjects));
                   otherSkiAreas = getSkiAreasByID otherSkiAreaIDs s
               in Some (Inr (filter (\<lambda>otherSkiArea. source otherSkiArea \<noteq> source skiArea)
                               otherSkiAreas))))"

text \<open>
  \<^verbatim>\<open>mergeSkiAreas\<close>: the merged ski area is written over the document of its key, the
  references to the other keys are rewritten, and the other ski areas are removed.
\<close>

definition rewriteSkiAreaReferences :: "string list \<Rightarrow> string \<Rightarrow> store \<Rightarrow> store" where
  "rewriteSkiAreaReferences ids survivor s =
     map (\<lambda>object.
            if list_ex (\<lambda>i. i \<in> set (skiAreas object)) ids
            then object\<lparr>skiAreas :=
                   aqlAppendUnique (aqlRemoveValues (skiAreas object) ids) [survivor]\<rparr>
            else object) s"

definition mergeSkiAreas :: "Env \<Rightarrow> store \<Rightarrow> MapObject list \<Rightarrow> store result" where
  "mergeSkiAreas env s skiAreas' =
     (case mergeSkiAreaObjects env skiAreas' of
        None \<Rightarrow> Some (Inr s)
      | Some skiArea \<Rightarrow>
          bindR (Some (collection_update (key skiArea) (\<lambda>_. skiArea) s))
            (\<lambda>s1. let ids = filter (\<lambda>k. k \<noteq> key skiArea) (remdups (map key skiAreas'))
                  in Some (Inr (collection_removeByKeys ids
                                  (rewriteSkiAreaReferences ids (key skiArea) s1)))))"

text \<open>
  The quotient of two array lengths, compared with 0.5. JavaScript divides in floating
  point: \<open>0 / 0\<close> is NaN, which is greater than nothing, and \<open>n / 0\<close> is infinite for
  \<open>n > 0\<close>. For a divisor that is not zero the rounded quotient of two lengths lies on
  the same side of 0.5 as the exact one.
\<close>

definition ratioExceedsHalf :: "nat \<Rightarrow> nat \<Rightarrow> bool" where
  "ratioExceedsHalf a b =
     (if b = 0 then a \<noteq> 0 else (of_nat a / of_nat b :: rat) > 1 / 2)"

definition isLiftOrRun :: "MapObject \<Rightarrow> bool" where
  "isLiftOrRun object = (otype object = Lift \<or> otype object = Run)"

definition removeDueToNoObjects :: "AssignOptions \<Rightarrow> MapObject list \<Rightarrow> bool" where
  "removeDueToNoObjects options memberObjects =
     (removeIfNoObjectsFound options \<and>
      \<not> list_ex (\<lambda>object. otype object \<noteq> SkiArea) memberObjects)"

definition removeDueToSignificantObjectsInSiteRelation ::
  "AssignOptions \<Rightarrow> MapObject list \<Rightarrow> bool" where
  "removeDueToSignificantObjectsInSiteRelation options memberObjects =
     (let liftsAndRuns = filter isLiftOrRun memberObjects;
          liftsAndRunsInSiteRelation = filter isInSkiAreaSite liftsAndRuns
      in removeIfSubstantialNumberOfObjectsInSkiAreaSite options \<and>
         ratioExceedsHalf (length liftsAndRunsInSiteRelation) (length liftsAndRuns))"

text \<open>
  The activities written back when the ski area had none: those of
  \<^verbatim>\<open>properties.activities\<close>, then every ski area activity of a member that is not a
  ski area, each once, in the order of insertion into the \<^verbatim>\<open>Set\<close>.
\<close>

definition clusteredActivities :: "MapObject \<Rightarrow> MapObject list \<Rightarrow> Activity list" where
  "clusteredActivities skiArea memberObjects =
     rev (remdups (rev
       (prop_activities (properties skiArea) @
        concat (map (\<lambda>object. filter (\<lambda>activity. activity \<in> set allSkiAreaActivities)
                                 (activities object))
                 (filter (\<lambda>object. otype object \<noteq> SkiArea) memberObjects)))))"

definition setActivities :: "Activity list \<Rightarrow> MapObject \<Rightarrow> MapObject" where
  "setActivities acts object =
     object\<lparr>activities := acts,
            properties := (properties object)\<lparr>prop_activities := acts\<rparr>\<rparr>"

text \<open>The body of the loop of \<^verbatim>\<open>assignObjectsToSkiAreas\<close>, for one ski area of the cursor.\<close>

definition assignObjectsToSkiArea ::
  "Env \<Rightarrow> AssignOptions \<Rightarrow> store \<Rightarrow> MapObject \<Rightarrow> store result" where
  "assignObjectsToSkiArea env options s skiArea =
     (let id' = prop_id (properties skiArea) in
      if id' = [] then Some (Inl NoIdForSkiArea)
      else
        bindR (if mergeWithOtherSourceIfNearby options
               then getSkiAreasToMerge env s skiArea else Some (Inr []))
        (\<lambda>skiAreasToMerge.
          if mergeWithOtherSourceIfNearby options \<and> length skiAreasToMerge > 0
          then mergeSkiAreas env s (skiArea # skiAreasToMerge)
          else if onlyInPolygon options \<and> \<not> isPolygonal (geometry skiArea)
          then Some (Inl (AssertionError ''Ski area geometry must be a polygon.''))
          else
            (let searchPolygon' =
                   (if onlyInPolygon options then Some (geometry skiArea) else None);
                 hasKnownSkiAreaActivities = (length (activities skiArea) > 0);
                 activitiesForClustering =
                   (if hasKnownSkiAreaActivities then activities skiArea
                    else allSkiAreaActivities);
                 skiArea' = skiArea\<lparr>activities := activitiesForClustering\<rparr>
             in bindR (traverse env s
                        \<lparr>ctx_id = id', ctx_activities = activitiesForClustering,
                         excludeObjectsAlreadyInSkiAreaPolygon =
                           onlyIfNotAlreadyAssignedToPolygon options,
                         searchPolygon = searchPolygon'\<rparr> skiArea')
                (\<lambda>memberObjects.
                   if removeDueToNoObjects options memberObjects
                   then Some (collection_remove (key skiArea) s)
                   else if removeDueToSignificantObjectsInSiteRelation options memberObjects
                   then Some (collection_remove (key skiArea) s)
                   else
                     (let s1 = markSkiArea id' (onlyInPolygon options) memberObjects s
                      in if \<not> hasKnownSkiAreaActivities
                         then Some (collection_update (key skiArea)
                                (setActivities (clusteredActivities skiArea' memberObjects)) s1)
                         else Some (Inr s1))))))"

text \<open>The options of the three calls in \<^verbatim>\<open>clusterArangoGraph\<close>.\<close>

definition polygonPassOptions :: AssignOptions where
  "polygonPassOptions =
     \<lparr>onlySource = OPENSTREETMAP, mergeWithOtherSourceIfNearby = False,
      removeIfNoObjectsFound = True, removeIfSubstantialNumberOfObjectsInSkiAreaSite = True,
      onlyIfNotAlreadyAssignedToPolygon = False, onlyInPolygon = True\<rparr>"

definition nearbyPassOptions :: AssignOptions where
  "nearbyPassOptions =
     \<lparr>onlySource = OPENSTREETMAP, mergeWithOtherSourceIfNearby = False,
      removeIfNoObjectsFound = False, removeIfSubstantialNumberOfObjectsInSkiAreaSite = False,
      onlyIfNotAlreadyAssignedToPolygon = True, onlyInPolygon = False\<rparr>"

definition skimapPassOptions :: AssignOptions where
  "skimapPassOptions =
     \<lparr>onlySource = SKIMAP_ORG, mergeWithOtherSourceIfNearby = True,
      removeIfNoObjectsFound = False, removeIfSubstantialNumberOfObjectsInSkiAreaSite = False,
      onlyIfNotAlreadyAssignedToPolygon = True, onlyInPolygon = False\<rparr>"

section \<open>Phase 4: ski areas for unassigned runs\<close>

text \<open>
  \<^verbatim>\<open>nextUnassignedRun\<close>: the first document with \<^verbatim>\<open>isBasisForNewSkiArea == true\<close>, if
  any; a run without activities raises.
\<close>

definition nextUnassignedRun :: "store \<Rightarrow> error + MapObject option" where
  "nextUnassignedRun s =
     (case filter isBasisForNewSkiArea s of
        [] \<Rightarrow> Inr None
      | run # _ \<Rightarrow>
          if length (activities run) = 0 then Inl NoActivitiesForRun else Inr (Some run))"

definition draftSkiArea :: "Env \<Rightarrow> string \<Rightarrow> Activity list \<Rightarrow> Geometry \<Rightarrow> MapObject" where
  "draftSkiArea env id' acts g =
     \<lparr>key = id', ident = id', otype = SkiArea, geometry = g, activities = acts,
      source = OPENSTREETMAP, skiAreas = [id'], isInSkiAreaPolygon = False,
      isBasisForNewSkiArea = False, isInSkiAreaSite = False, isPolygon = True,
      properties =
        \<lparr>prop_id = id', name = None, generated = True, prop_activities = acts,
         status = Operating, sources = [], runConvention = getRunConvention env g,
         website = None, location = None, statistics = None\<rparr>\<rparr>"

definition createGeneratedSkiArea ::
  "Env \<Rightarrow> string \<Rightarrow> Activity list \<Rightarrow> MapObject list \<Rightarrow> store \<Rightarrow> store result" where
  "createGeneratedSkiArea env id' acts memberObjects s =
     (case centroid env (map geometry memberObjects) of
        None \<Rightarrow> Some (Inl NoCentroid)
      | Some g \<Rightarrow>
          bindR (Some (collection_save (draftSkiArea env id' acts g) s))
            (\<lambda>s1. Some (Inr (markSkiArea id' False memberObjects s1))))"

definition hasAnotherActivity :: "MapObject \<Rightarrow> bool" where
  "hasAnotherActivity object =
     list_ex (\<lambda>activity. activity \<noteq> Downhill \<and> activity \<in> set allSkiAreaActivities)
       (activities object)"

definition generateSkiAreaForRun ::
  "Env \<Rightarrow> string \<Rightarrow> store \<Rightarrow> MapObject \<Rightarrow> store result" where
  "generateSkiAreaForRun env newSkiAreaID s unassignedRun =
     (let acts = filter (\<lambda>activity. activity \<in> set allSkiAreaActivities)
                   (activities unassignedRun)
      in bindR (traverse env s
                 \<lparr>ctx_id = newSkiAreaID, ctx_activities = acts,
                  excludeObjectsAlreadyInSkiAreaPolygon = False, searchPolygon = None\<rparr>
                 unassignedRun)
           (\<lambda>memberObjects.
              let noLift = (Downhill \<in> set acts \<and>
                            \<not> list_ex (\<lambda>object. otype object = Lift) memberObjects);
                  acts' = (if noLift then filter (\<lambda>activity. activity \<noteq> Downhill) acts
                           else acts);
                  memberObjects' = (if noLift then filter hasAnotherActivity memberObjects
                                    else memberObjects)
              in if length acts' = 0 \<or> length memberObjects' = 0
                 then Some (collection_update (key unassignedRun)
                              (\<lambda>object. object\<lparr>isBasisForNewSkiArea := False\<rparr>) s)
                 else createGeneratedSkiArea env newSkiAreaID acts' memberObjects' s))"

text \<open>
  The loop of \<^verbatim>\<open>generateSkiAreasForUnassignedObjects\<close>, bounded by a number of
  iterations; the third argument counts the calls of \<^verbatim>\<open>uuid()\<close>. The call of
  \<^verbatim>\<open>nextUnassignedRun\<close> is the condition of the \<^verbatim>\<open>while\<close>, outside the \<^verbatim>\<open>try\<close>. An
  exception of \<^verbatim>\<open>generateSkiAreaForRun\<close> is caught and logged; every raise of
  \<open>generateSkiAreaForRun\<close> precedes its first write, so the loop goes on with the
  store as it was.
\<close>

fun generateSkiAreasForUnassignedObjects ::
  "nat \<Rightarrow> Env \<Rightarrow> nat \<Rightarrow> store \<Rightarrow> store result" where
  "generateSkiAreasForUnassignedObjects 0 env k s = None"
| "generateSkiAreasForUnassignedObjects (Suc n) env k s =
     (case nextUnassignedRun s of
        Inl e \<Rightarrow> Some (Inl e)
      | Inr None \<Rightarrow> Some (Inr s)
      | Inr (Some unassignedRun) \<Rightarrow>
          (case generateSkiAreaForRun env (uuid env k) s unassignedRun of
             None \<Rightarrow> None
           | Some (Inl exception) \<Rightarrow> generateSkiAreasForUnassignedObjects n env (Suc k) s
           | Some (Inr s') \<Rightarrow> generateSkiAreasForUnassignedObjects n env (Suc k) s'))"

section \<open>Phase 5: augmentation\<close>

definition augmentSkiAreaBasedOnAssignedLiftsAndRuns ::
  "Env \<Rightarrow> store \<Rightarrow> MapObject \<Rightarrow> MapObject list \<Rightarrow> store result" where
  "augmentSkiAreaBasedOnAssignedLiftsAndRuns env s skiArea memberObjects =
     (let noSkimapOrgSource =
            (\<not> list_ex (\<lambda>src. fst src = SKIMAP_ORG) (sources (properties skiArea)))
      in if length memberObjects = 0 \<and> noSkimapOrgSource
         then Some (collection_remove (key skiArea) s)
         else
           (case (if length memberObjects > 0
                  then centroid env (map geometry memberObjects)
                  else Some (geometry skiArea)) of
              None \<Rightarrow> Some (Inl NoCentroid)
            | Some newGeometry \<Rightarrow>
                (let skiArea1 = skiArea
                       \<lparr>geometry := newGeometry, isPolygon := False,
                        properties := (properties skiArea)
                          \<lparr>statistics := Some (skiAreaStatistics env memberObjects),
                           runConvention := getRunConvention env newGeometry\<rparr>\<rparr>
                 in case geocoder env of
                      None \<Rightarrow> Some (collection_update (ident skiArea) (\<lambda>_. skiArea1) s)
                    | Some geocode \<Rightarrow>
                        (case centroid env [newGeometry] of
                           None \<Rightarrow> Some (Inl NoCentroid)
                         | Some coordinates \<Rightarrow>
                             (let skiArea2 =
                                (case geocode coordinates of
                                   Some loc \<Rightarrow> skiArea1\<lparr>properties :=
                                     (properties skiArea1)\<lparr>location := Some loc\<rparr>\<rparr>
                                 | None \<Rightarrow> skiArea1)
                              in Some (collection_update (ident skiArea)
                                         (\<lambda>_. skiArea2) s))))))"

section \<open>Batches of ski areas\<close>

text \<open>
  The three loops over a cursor take the ski areas batch by batch and start the body
  for every ski area of a batch at once, \<^verbatim>\<open>await Promise.all(skiAreas.map(async ...))\<close>:
  the bodies of a batch run interleaved, each suspended at its \<^verbatim>\<open>await\<close>s, and the
  database answers their calls one at a time in an order of its own. An async function
  is therefore a sequence of database calls: it has returned, it has raised, it is cut
  off by the bound of a traversal, or its next call reads the store and goes on with
  what it read, or writes (and raises when the write fails) and goes on. An \<^verbatim>\<open>await\<close>
  that does not reach the database (\<^verbatim>\<open>cursor.all()\<close>, the geocoder) is no call.
\<close>

datatype 'a proc =
    Return 'a
  | Raise error
  | Cutoff
  | Read "store \<Rightarrow> 'a proc"
  | Write "store \<Rightarrow> error + store" "'a proc"

primrec bindP :: "'a proc \<Rightarrow> ('a \<Rightarrow> 'b proc) \<Rightarrow> 'b proc" where
  "bindP (Return x) k = k x"
| "bindP (Raise e) k = Raise e"
| "bindP Cutoff k = Cutoff"
| "bindP (Read f) k = Read (\<lambda>s. bindP (f s) k)"
| "bindP (Write w p) k = Write w (bindP p k)"

text \<open>
  An async function run on its own, with no other call between its calls. The
  definitions of the sections above are the async functions of the source run this way
  (lemmas \<open>visit_alone\<close> to \<open>augment_alone\<close> below).
\<close>

primrec runTask :: "'a proc \<Rightarrow> store \<Rightarrow> (store \<times> 'a) result" where
  "runTask (Return x) s = Some (Inr (s, x))"
| "runTask (Raise e) s = Some (Inl e)"
| "runTask Cutoff s = None"
| "runTask (Read f) s = runTask (f s) s"
| "runTask (Write w p) s = (case w s of Inl e \<Rightarrow> Some (Inl e) | Inr s' \<Rightarrow> runTask p s')"

subsection \<open>The async functions, call by call\<close>

text \<open>
  The traversal: one call of the database in \<^verbatim>\<open>visitPolygon\<close>, the query of
  \<^verbatim>\<open>findNearbyObjects\<close>; each query of a traversal reads the store as it is then.
\<close>

function (sequential) visitObjectAsync ::
  "nat \<Rightarrow> Env \<Rightarrow> VisitContext \<Rightarrow> string list \<Rightarrow> MapObject
     \<Rightarrow> (MapObject list \<times> string list) proc"
and visitPolygonAsync ::
  "nat \<Rightarrow> Env \<Rightarrow> VisitContext \<Rightarrow> string list \<Rightarrow> Geometry
     \<Rightarrow> (MapObject list \<times> string list) proc"
and visitPolygonsAsync ::
  "nat \<Rightarrow> Env \<Rightarrow> VisitContext \<Rightarrow> string list \<Rightarrow> position list list list
     \<Rightarrow> (MapObject list \<times> string list) proc"
and visitObjectsAsync ::
  "nat \<Rightarrow> Env \<Rightarrow> VisitContext \<Rightarrow> string list \<Rightarrow> MapObject list
     \<Rightarrow> (MapObject list \<times> string list) proc"
where
  "visitObjectAsync 0 env context visited object = Cutoff"
| "visitObjectAsync (Suc n) env context visited object =
     (case searchAreaOf env context object of
        None \<Rightarrow> Return ([object], visited)
      | Some (Polygon cs) \<Rightarrow>
          bindP (visitPolygonAsync n env (objectContextOf context object) visited (Polygon cs))
            (\<lambda>(found, visited'). Return (object # found, visited'))
      | Some (MultiPolygon css) \<Rightarrow>
          bindP (visitPolygonsAsync n env (objectContextOf context object) visited css)
            (\<lambda>(found, visited'). Return (object # found, visited'))
      | Some _ \<Rightarrow> Raise UnexpectedVisitAreaGeometryType)"
| "visitPolygonAsync n env context visited g =
     Read (\<lambda>s.
       case findNearbyObjects env s g
              (if searchPolygon context \<noteq> None then Contains else Intersects) context visited of
         Inl e \<Rightarrow> Raise e
       | Inr (objects, visited') \<Rightarrow>
           if searchPolygon context \<noteq> None then Return (objects, visited')
           else visitObjectsAsync n env context visited' objects)"
| "visitPolygonsAsync n env context visited [] = Return ([], visited)"
| "visitPolygonsAsync n env context visited (cs # css) =
     bindP (visitPolygonAsync n env context visited (Polygon cs)) (\<lambda>(found, visited').
       bindP (visitPolygonsAsync n env context visited' css) (\<lambda>(found', visited'').
         Return (found @ found', visited'')))"
| "visitObjectsAsync n env context visited [] = Return ([], visited)"
| "visitObjectsAsync n env context visited (object # objects) =
     bindP (visitObjectAsync n env context visited object) (\<lambda>(found, visited').
       bindP (visitObjectsAsync n env context visited' objects) (\<lambda>(found', visited'').
         Return (found @ found', visited'')))"
  by pat_completeness auto

termination
  by (relation "measures
        [\<lambda>x. case x of Inl (Inl (n, _)) \<Rightarrow> n | Inl (Inr (n, _)) \<Rightarrow> n
                     | Inr (Inl (n, _)) \<Rightarrow> n | Inr (Inr (n, _)) \<Rightarrow> n,
         \<lambda>x. case x of Inl (Inl _) \<Rightarrow> 0 | Inl (Inr _) \<Rightarrow> 2
                     | Inr (Inl _) \<Rightarrow> 3 | Inr (Inr _) \<Rightarrow> (1::nat),
         \<lambda>x. case x of Inl _ \<Rightarrow> 0
                     | Inr (Inl (n, env, c, v, css)) \<Rightarrow> length css
                     | Inr (Inr (n, env, c, v, os)) \<Rightarrow> length os]")
     auto

definition traverseAsync ::
  "nat \<Rightarrow> Env \<Rightarrow> VisitContext \<Rightarrow> MapObject \<Rightarrow> MapObject list proc" where
  "traverseAsync n env context object =
     bindP (visitObjectAsync n env context [key object] object)
       (\<lambda>(found, visited). Return found)"

text \<open>
  \<^verbatim>\<open>getSkiAreasToMerge\<close>: the query of \<^verbatim>\<open>findNearbyObjects\<close>, then the query of
  \<^verbatim>\<open>getSkiAreasByID\<close>.
\<close>

definition getSkiAreasToMergeAsync :: "Env \<Rightarrow> MapObject \<Rightarrow> MapObject list proc" where
  "getSkiAreasToMergeAsync env skiArea =
     (case bufferGeometry env (geometry skiArea) maxMergeDistanceInKilometers of
        None \<Rightarrow> Return []
      | Some buffer \<Rightarrow>
          Read (\<lambda>s.
            case findNearbyObjects env s buffer Intersects
                   \<lparr>ctx_id = ident skiArea, ctx_activities = activities skiArea,
                    excludeObjectsAlreadyInSkiAreaPolygon = False, searchPolygon = None\<rparr> [] of
              Inl e \<Rightarrow> Raise e
            | Inr (nearbyObjects, visited) \<Rightarrow>
                Read (\<lambda>s'.
                  let otherSkiAreaIDs = remdups (concat (map skiAreas nearbyObjects));
                      otherSkiAreas = getSkiAreasByID otherSkiAreaIDs s'
                  in Return (filter (\<lambda>otherSkiArea. source otherSkiArea \<noteq> source skiArea)
                               otherSkiAreas))))"

text \<open>
  \<^verbatim>\<open>mergeSkiAreas\<close>: three calls, the update of the merged ski area, the query that
  rewrites the references, and the removal of the other ski areas.
\<close>

definition mergeSkiAreasAsync :: "Env \<Rightarrow> MapObject list \<Rightarrow> unit proc" where
  "mergeSkiAreasAsync env skiAreas' =
     (case mergeSkiAreaObjects env skiAreas' of
        None \<Rightarrow> Return ()
      | Some skiArea \<Rightarrow>
          (let ids = filter (\<lambda>k. k \<noteq> key skiArea) (remdups (map key skiAreas'))
           in Write (collection_update (key skiArea) (\<lambda>_. skiArea))
                (Write (\<lambda>s. Inr (rewriteSkiAreaReferences ids (key skiArea) s))
                   (Write (\<lambda>s. Inr (collection_removeByKeys ids s)) (Return ())))))"

text \<open>
  The body of the loop of \<^verbatim>\<open>assignObjectsToSkiAreas\<close>: the calls of
  \<^verbatim>\<open>getSkiAreasToMerge\<close> and \<^verbatim>\<open>mergeSkiAreas\<close>, or the queries of the traversal and
  then the removal, or the query of \<^verbatim>\<open>markSkiArea\<close> and the update of the activities.
  The first argument bounds the depth of the traversal.
\<close>

definition assignObjectsToSkiAreaAsync ::
  "nat \<Rightarrow> Env \<Rightarrow> AssignOptions \<Rightarrow> MapObject \<Rightarrow> unit proc" where
  "assignObjectsToSkiAreaAsync n env options skiArea =
     (let id' = prop_id (properties skiArea) in
      if id' = [] then Raise NoIdForSkiArea
      else
        bindP (if mergeWithOtherSourceIfNearby options
               then getSkiAreasToMergeAsync env skiArea else Return [])
        (\<lambda>skiAreasToMerge.
          if mergeWithOtherSourceIfNearby options \<and> length skiAreasToMerge > 0
          then mergeSkiAreasAsync env (skiArea # skiAreasToMerge)
          else if onlyInPolygon options \<and> \<not> isPolygonal (geometry skiArea)
          then Raise (AssertionError ''Ski area geometry must be a polygon.'')
          else
            (let searchPolygon' =
                   (if onlyInPolygon options then Some (geometry skiArea) else None);
                 hasKnownSkiAreaActivities = (length (activities skiArea) > 0);
                 activitiesForClustering =
                   (if hasKnownSkiAreaActivities then activities skiArea
                    else allSkiAreaActivities);
                 skiArea' = skiArea\<lparr>activities := activitiesForClustering\<rparr>
             in bindP (traverseAsync n env
                        \<lparr>ctx_id = id', ctx_activities = activitiesForClustering,
                         excludeObjectsAlreadyInSkiAreaPolygon =
                           onlyIfNotAlreadyAssignedToPolygon options,
                         searchPolygon = searchPolygon'\<rparr> skiArea')
                (\<lambda>memberObjects.
                   if removeDueToNoObjects options memberObjects
                   then Write (collection_remove (key skiArea)) (Return ())
                   else if removeDueToSignificantObjectsInSiteRelation options memberObjects
                   then Write (collection_remove (key skiArea)) (Return ())
                   else
                     Write (\<lambda>s. Inr (markSkiArea id' (onlyInPolygon options) memberObjects s))
                       (if \<not> hasKnownSkiAreaActivities
                        then Write (collection_update (key skiArea)
                                (setActivities (clusteredActivities skiArea' memberObjects)))
                               (Return ())
                        else Return ())))))"

text \<open>The body of the loop of \<^verbatim>\<open>removeAmbiguousDuplicateSkiAreas\<close>: a query, then the removal.\<close>

definition removeAmbiguousDuplicateSkiAreaAsync :: "Env \<Rightarrow> MapObject \<Rightarrow> unit proc" where
  "removeAmbiguousDuplicateSkiAreaAsync env skiArea =
     (if \<not> isPolygonal (geometry skiArea)
      then Raise (AssertionError
        ''getSkiAreas query should have only returned ski areas with a Polygon geometry.'')
      else Read (\<lambda>s.
        case getSkiAreas env (Some SKIMAP_ORG) False (Some (geometry skiArea)) s of
          None \<Rightarrow> Cutoff
        | Some (Inl e) \<Rightarrow> Raise e
        | Some (Inr otherSkiAreas) \<Rightarrow>
            if length otherSkiAreas > 1 then Write (collection_remove (key skiArea)) (Return ())
            else Return ()))"

text \<open>
  \<^verbatim>\<open>augmentSkiAreaBasedOnAssignedLiftsAndRuns\<close>: one call, the removal or the update,
  after the members were read by the query of \<^verbatim>\<open>getObjects\<close> in the body of the loop.
\<close>

definition augmentSkiAreaBasedOnAssignedLiftsAndRunsAsync ::
  "Env \<Rightarrow> MapObject \<Rightarrow> MapObject list \<Rightarrow> unit proc" where
  "augmentSkiAreaBasedOnAssignedLiftsAndRunsAsync env skiArea memberObjects =
     (let noSkimapOrgSource =
            (\<not> list_ex (\<lambda>src. fst src = SKIMAP_ORG) (sources (properties skiArea)))
      in if length memberObjects = 0 \<and> noSkimapOrgSource
         then Write (collection_remove (key skiArea)) (Return ())
         else
           (case (if length memberObjects > 0
                  then centroid env (map geometry memberObjects)
                  else Some (geometry skiArea)) of
              None \<Rightarrow> Raise NoCentroid
            | Some newGeometry \<Rightarrow>
                (let skiArea1 = skiArea
                       \<lparr>geometry := newGeometry, isPolygon := False,
                        properties := (properties skiArea)
                          \<lparr>statistics := Some (skiAreaStatistics env memberObjects),
                           runConvention := getRunConvention env newGeometry\<rparr>\<rparr>
                 in case geocoder env of
                      None \<Rightarrow> Write (collection_update (ident skiArea) (\<lambda>_. skiArea1)) (Return ())
                    | Some geocode \<Rightarrow>
                        (case centroid env [newGeometry] of
                           None \<Rightarrow> Raise NoCentroid
                         | Some coordinates \<Rightarrow>
                             (let skiArea2 =
                                (case geocode coordinates of
                                   Some loc \<Rightarrow> skiArea1\<lparr>properties :=
                                     (properties skiArea1)\<lparr>location := Some loc\<rparr>\<rparr>
                                 | None \<Rightarrow> skiArea1)
                              in Write (collection_update (ident skiArea) (\<lambda>_. skiArea2))
                                   (Return ()))))))"

definition augmentSkiAreaAsync :: "Env \<Rightarrow> MapObject \<Rightarrow> unit proc" where
  "augmentSkiAreaAsync env skiArea =
     Read (\<lambda>s. augmentSkiAreaBasedOnAssignedLiftsAndRunsAsync env skiArea
                 (getObjects (ident skiArea) s))"

subsection \<open>A batch\<close>

text \<open>
  The bodies started for a batch, and the store. While none has raised, the database
  answers the next call of one of those that have not returned: which one is the
  environment's choice, \<open>schedule env phase batch\<close> being the list of the choices for
  a batch of a phase, each a position among the bodies still at work. When the list is
  used up, the bodies still at work are completed one after the other. An exception of
  one body rejects \<^verbatim>\<open>Promise.all\<close> and ends the phase and the pipeline.
\<close>

fun firstRaised :: "unit proc list \<Rightarrow> error option" where
  "firstRaised [] = None"
| "firstRaised (Raise e # ps) = Some e"
| "firstRaised (p # ps) = firstRaised ps"

definition atWork :: "unit proc list \<Rightarrow> nat list" where
  "atWork ps =
     filter (\<lambda>j. case ps ! j of Return _ \<Rightarrow> False | Raise _ \<Rightarrow> False | _ \<Rightarrow> True)
       [0 ..< length ps]"

fun runEach :: "unit proc list \<Rightarrow> store \<Rightarrow> store result" where
  "runEach [] s = Some (Inr s)"
| "runEach (p # ps) s = bindR (runTask p s) (\<lambda>(s', u). runEach ps s')"

fun runBatch :: "nat list \<Rightarrow> unit proc list \<Rightarrow> store \<Rightarrow> store result" where
  "runBatch [] ps s = runEach ps s"
| "runBatch (i # choices) ps s =
     (case firstRaised ps of
        Some e \<Rightarrow> Some (Inl e)
      | None \<Rightarrow>
          (case atWork ps of
             [] \<Rightarrow> Some (Inr s)
           | j0 # js \<Rightarrow>
               (let j = (j0 # js) ! (i mod length (j0 # js)) in
                case ps ! j of
                  Read f \<Rightarrow> runBatch choices (ps[j := f s]) s
                | Write w p \<Rightarrow>
                    (case w s of
                       Inl e \<Rightarrow> Some (Inl e)
                     | Inr s' \<Rightarrow> runBatch choices (ps[j := p]) s')
                | _ \<Rightarrow> None)))"

text \<open>
  The orders in which the calls of the bodies of a batch can be answered, as a relation:
  \<open>answered ps s ps' s'\<close> when answering calls of the bodies \<open>ps\<close> one at a time, each
  the next call of some body, leads from the store \<open>s\<close> to the bodies \<open>ps'\<close> and the
  store \<open>s'\<close>. Every such order that ends with all bodies returned is the run of some
  list of choices, and conversely (lemmas \<open>every_order_has_choices\<close> and
  \<open>choices_are_an_order\<close> below).
\<close>

inductive answered :: "unit proc list \<Rightarrow> store \<Rightarrow> unit proc list \<Rightarrow> store \<Rightarrow> bool" where
  nothing: "answered ps s ps s"
| reading: "j < length ps \<Longrightarrow> ps ! j = Read f \<Longrightarrow> answered (ps[j := f s]) s ps' s'
           \<Longrightarrow> answered ps s ps' s'"
| writing: "j < length ps \<Longrightarrow> ps ! j = Write w p \<Longrightarrow> w s = Inr s1
           \<Longrightarrow> answered (ps[j := p]) s1 ps' s' \<Longrightarrow> answered ps s ps' s'"

text \<open>
  The cursor of \<^verbatim>\<open>getSkiAreas\<close> holds the result of its query and hands it out in
  batches of 50. The bound of the traversals of a batch is one more than the number of
  documents when the batch starts; no loop over a cursor adds a document.
\<close>

definition batchSize :: nat where
  "batchSize = 50"

fun batchesOf :: "nat \<Rightarrow> 'a list \<Rightarrow> 'a list list" where
  "batchesOf n xs = (if n = 0 \<or> xs = [] then [] else take n xs # batchesOf n (drop n xs))"

declare batchesOf.simps [simp del]

fun forEachBatch ::
  "Env \<Rightarrow> nat \<Rightarrow> nat \<Rightarrow> (nat \<Rightarrow> MapObject \<Rightarrow> unit proc) \<Rightarrow> MapObject list list \<Rightarrow> store
     \<Rightarrow> store result" where
  "forEachBatch env phase b body [] s = Some (Inr s)"
| "forEachBatch env phase b body (batch # batches) s =
     bindR (runBatch (schedule env phase b) (map (body (Suc (length s))) batch) s)
       (forEachBatch env phase (Suc b) body batches)"

definition forEachSkiArea ::
  "Env \<Rightarrow> nat \<Rightarrow> (nat \<Rightarrow> MapObject \<Rightarrow> unit proc) \<Rightarrow> MapObject list \<Rightarrow> store \<Rightarrow> store result" where
  "forEachSkiArea env phase body cursor s =
     forEachBatch env phase 0 body (batchesOf batchSize cursor) s"

subsection \<open>The three loops\<close>

definition removeAmbiguousDuplicateSkiAreas :: "Env \<Rightarrow> store \<Rightarrow> store result" where
  "removeAmbiguousDuplicateSkiAreas env s =
     bindR (getSkiAreas env (Some OPENSTREETMAP) True None s)
       (\<lambda>cursor. forEachSkiArea env 0 (\<lambda>n. removeAmbiguousDuplicateSkiAreaAsync env) cursor s)"

text \<open>The second argument is the number of the phase, 1, 2 or 3.\<close>

definition assignObjectsToSkiAreas ::
  "Env \<Rightarrow> nat \<Rightarrow> AssignOptions \<Rightarrow> store \<Rightarrow> store result" where
  "assignObjectsToSkiAreas env phase options s =
     bindR (getSkiAreas env (Some (onlySource options)) (onlyInPolygon options) None s)
       (\<lambda>cursor. forEachSkiArea env phase
                   (\<lambda>n. assignObjectsToSkiAreaAsync n env options) cursor s)"

definition augmentSkiAreasBasedOnAssignedLiftsAndRuns :: "Env \<Rightarrow> store \<Rightarrow> store result" where
  "augmentSkiAreasBasedOnAssignedLiftsAndRuns env s =
     bindR (getSkiAreas env None False None s)
       (\<lambda>cursor. forEachSkiArea env 5 (\<lambda>n. augmentSkiAreaAsync env) cursor s)"

section \<open>The pipeline\<close>

definition clusterArangoGraph :: "nat \<Rightarrow> Env \<Rightarrow> store \<Rightarrow> store result" where
  "clusterArangoGraph n env s =
     bindR (removeAmbiguousDuplicateSkiAreas env s) (\<lambda>s0.
     bindR (assignObjectsToSkiAreas env 1 polygonPassOptions s0) (\<lambda>s1.
     bindR (assignObjectsToSkiAreas env 2 nearbyPassOptions s1) (\<lambda>s2.
     bindR (assignObjectsToSkiAreas env 3 skimapPassOptions s2) (\<lambda>s3.
     bindR (generateSkiAreasForUnassignedObjects n env 0 s3) (\<lambda>s4.
       augmentSkiAreasBasedOnAssignedLiftsAndRuns env s4)))))"

section \<open>A planar world for concrete runs\<close>

text \<open>
  Coordinates are kilometres on a plane. A geometry is taken by its bounding box: the
  buffer of a geometry is its box grown by the distance, two geometries intersect when
  their boxes overlap, one contains the other when it contains its box, and the
  centroid is the mean of the vertices, as turf computes it.
\<close>

fun vertices :: "Geometry \<Rightarrow> position list" where
  "vertices (Point p) = [p]"
| "vertices (LineString ps) = ps"
| "vertices (Polygon rings) = concat rings"
| "vertices (MultiPolygon polys) = concat (concat polys)"

fun lowest :: "rat list \<Rightarrow> rat" where
  "lowest [] = 0"
| "lowest [x] = x"
| "lowest (x # y # ys) = min x (lowest (y # ys))"

fun highest :: "rat list \<Rightarrow> rat" where
  "highest [] = 0"
| "highest [x] = x"
| "highest (x # y # ys) = max x (highest (y # ys))"

definition boxOverlap :: "Geometry \<Rightarrow> Geometry \<Rightarrow> bool" where
  "boxOverlap a g =
     (let xa = map fst (vertices a); ya = map snd (vertices a);
          xg = map fst (vertices g); yg = map snd (vertices g)
      in lowest xa \<le> highest xg \<and> lowest xg \<le> highest xa \<and>
         lowest ya \<le> highest yg \<and> lowest yg \<le> highest ya)"

definition boxInside :: "Geometry \<Rightarrow> Geometry \<Rightarrow> bool" where
  "boxInside a g =
     (let xa = map fst (vertices a); ya = map snd (vertices a);
          xg = map fst (vertices g); yg = map snd (vertices g)
      in lowest xa \<le> lowest xg \<and> highest xg \<le> highest xa \<and>
         lowest ya \<le> lowest yg \<and> highest yg \<le> highest ya)"

definition boxBuffer :: "Geometry \<Rightarrow> rat \<Rightarrow> Geometry option" where
  "boxBuffer g d =
     (let xs = map fst (vertices g); ys = map snd (vertices g);
          x0 = lowest xs - d; x1 = highest xs + d; y0 = lowest ys - d; y1 = highest ys + d
      in if vertices g = [] then None
         else Some (Polygon [[(x0, y0), (x0, y1), (x1, y1), (x1, y0), (x0, y0)]]))"

definition vertexMean :: "Geometry list \<Rightarrow> Geometry option" where
  "vertexMean gs =
     (let ps = concat (map vertices gs)
      in if ps = [] then None
         else Some (Point (sum_list (map fst ps) / of_nat (length ps),
                           sum_list (map snd ps) / of_nat (length ps))))"

definition planarEnv :: Env where
  "planarEnv =
     \<lparr>geoIntersects = boxOverlap, geoContains = boxInside, queryFailure = (\<lambda>_. None),
      bufferGeometry = boxBuffer, centroid = vertexMean,
      getRunConvention = (\<lambda>_. ''europe''), skiAreaStatistics = (\<lambda>_. ''statistics''),
      geocoder = None, mergeSkiAreaObjects = (\<lambda>_. None),
      uuid = (\<lambda>n. ''generated-'' @ replicate n (CHR ''i'')),
      schedule = (\<lambda>phase batch. [])\<rparr>"

definition someProperties :: "string \<Rightarrow> SourceType \<Rightarrow> Activity list \<Rightarrow> SkiAreaProperties" where
  "someProperties i src acts =
     \<lparr>prop_id = i, name = None, generated = False, prop_activities = acts,
      status = Operating, sources = [(src, i)], runConvention = ''europe'',
      website = None, location = None, statistics = None\<rparr>"

definition skiAreaOf :: "string \<Rightarrow> SourceType \<Rightarrow> Geometry \<Rightarrow> Activity list \<Rightarrow> MapObject" where
  "skiAreaOf i src g acts =
     \<lparr>key = i, ident = i, otype = SkiArea, geometry = g, activities = acts, source = src,
      skiAreas = [i], isInSkiAreaPolygon = False, isBasisForNewSkiArea = False,
      isInSkiAreaSite = False, isPolygon = isPolygonal g,
      properties = someProperties i src acts\<rparr>"

definition runOf :: "string \<Rightarrow> Geometry \<Rightarrow> Activity list \<Rightarrow> MapObject" where
  "runOf i g acts =
     \<lparr>key = i, ident = i, otype = Run, geometry = g, activities = acts,
      source = OPENSTREETMAP, skiAreas = [], isInSkiAreaPolygon = False,
      isBasisForNewSkiArea = True, isInSkiAreaSite = False, isPolygon = False,
      properties = someProperties i OPENSTREETMAP acts\<rparr>"

definition liftOf :: "string \<Rightarrow> Geometry \<Rightarrow> Activity list \<Rightarrow> MapObject" where
  "liftOf i g acts =
     \<lparr>key = i, ident = i, otype = Lift, geometry = g, activities = acts,
      source = OPENSTREETMAP, skiAreas = [], isInSkiAreaPolygon = False,
      isBasisForNewSkiArea = False, isInSkiAreaSite = False, isPolygon = False,
      properties = someProperties i OPENSTREETMAP acts\<rparr>"

text \<open>A valley: three runs and a lift within reach of each other, and a run far away.\<close>

definition valley :: store where
  "valley = [runOf ''r1'' (LineString [(0, 0), (0, 1)]) [Downhill, Nordic],
             runOf ''r2'' (LineString [(1/4, 1), (1/4, 2)]) [Downhill],
             liftOf ''l1'' (LineString [(1/2, 2), (1/2, 3)]) [Downhill, Backcountry],
             runOf ''r3'' (LineString [(0, 5/4), (0, 3/2)]) [Nordic],
             runOf ''r4'' (LineString [(5, 5), (5, 6)]) [Downhill]]"

definition valleyContext :: VisitContext where
  "valleyContext = \<lparr>ctx_id = ''new'', ctx_activities = [Downhill, Nordic],
     excludeObjectsAlreadyInSkiAreaPolygon = False, searchPolygon = None\<rparr>"

definition resort :: store where
  "resort = [skiAreaOf ''a'' OPENSTREETMAP (Polygon [[(0, 0), (0, 2), (2, 2), (2, 0), (0, 0)]]) [],
             runOf ''r'' (LineString [(1, 1), (1, 3/2)]) [Downhill],
             skiAreaOf ''b'' SKIMAP_ORG (Point (1/2, 1/2)) [Downhill]]"

definition siteResort :: store where
  "siteResort =
     [skiAreaOf ''a'' OPENSTREETMAP (Polygon [[(0, 0), (0, 2), (2, 2), (2, 0), (0, 0)]]) [],
      (liftOf ''l1'' (LineString [(1/2, 1/2), (1/2, 1)]) [Downhill])\<lparr>isInSkiAreaSite := True\<rparr>,
      (liftOf ''l2'' (LineString [(1, 1/2), (1, 1)]) [Downhill])\<lparr>isInSkiAreaSite := True\<rparr>,
      (liftOf ''l3'' (LineString [(3/2, 1/2), (3/2, 1)]) [Downhill])\<lparr>isInSkiAreaSite := True\<rparr>,
      (liftOf ''l4'' (LineString [(1/2, 1), (1/2, 3/2)]) [Downhill])\<lparr>isInSkiAreaSite := True\<rparr>,
      liftOf ''l5'' (LineString [(1, 1), (1, 3/2)]) [Downhill]]"

definition resortAfterPolygonPass :: store where
  "resortAfterPolygonPass =
     [(resort ! 0)\<lparr>activities := [Downhill], isInSkiAreaPolygon := True,
                   properties := (properties (resort ! 0))\<lparr>prop_activities := [Downhill]\<rparr>\<rparr>,
      (resort ! 1)\<lparr>skiAreas := [''a''], isInSkiAreaPolygon := True,
                   isBasisForNewSkiArea := False\<rparr>,
      (resort ! 2)\<lparr>skiAreas := [''b'', ''a''], isInSkiAreaPolygon := True\<rparr>]"

definition lacksLift :: "Activity list \<Rightarrow> MapObject list \<Rightarrow> bool" where
  "lacksLift acts found = (Downhill \<in> set acts \<and> (\<forall>m \<in> set found. otype m \<noteq> Lift))"

definition nordicValley :: store where
  "nordicValley = [runOf ''r1'' (LineString [(0, 0), (0, 1)]) [Downhill, Nordic],
                   runOf ''r2'' (LineString [(1/4, 1), (1/4, 2)]) [Downhill],
                   runOf ''r3'' (LineString [(0, 5/4), (0, 3/2)]) [Nordic]]"

text \<open>
  An environment in which nothing raises during a synthesis: every query of the
  database succeeds, the buffer of a geometry is a polygon or a multipolygon (or
  nothing), and the centroid of a collection that is not empty exists.
\<close>

definition wellBehaved :: "Env \<Rightarrow> bool" where
  "wellBehaved env \<longleftrightarrow>
     (\<forall>g. queryFailure env g = None) \<and>
     (\<forall>g d a. bufferGeometry env g d = Some a \<longrightarrow> isPolygonal a) \<and>
     (\<forall>gs. gs \<noteq> [] \<longrightarrow> centroid env gs \<noteq> None)"

definition steadyEnv :: Env where
  "steadyEnv =
     planarEnv\<lparr>centroid := (\<lambda>gs. case vertexMean gs of
                                   Some p \<Rightarrow> Some p
                                 | None \<Rightarrow> if gs = [] then None else Some (Point (0, 0)))\<rparr>"

definition brokenValley :: store where
  "brokenValley = [runOf ''r0'' (LineString [(0, 0), (0, 1)]) [],
                   runOf ''r1'' (LineString [(5, 0), (5, 1)]) [Nordic]]"

definition timeoutEnv :: Env where
  "timeoutEnv = planarEnv\<lparr>queryFailure := (\<lambda>_. Some ''query killed: timeout'')\<rparr>"

definition orphanRun :: store where
  "orphanRun = [runOf ''n'' (LineString [(0, 0), (0, 1)]) [Nordic]]"

definition orphanRunSynthesized :: store where
  "orphanRunSynthesized =
     markSkiArea ''g'' False [orphanRun ! 0]
       (orphanRun @ [draftSkiArea planarEnv ''g'' [Nordic] (Point (0, 1/2))])"

definition orphanRunAugmented :: store where
  "orphanRunAugmented =
     [orphanRunSynthesized ! 0,
      (orphanRunSynthesized ! 1)
        \<lparr>geometry := Point (0, 1/2), isPolygon := False,
         properties := (properties (orphanRunSynthesized ! 1))
           \<lparr>statistics := Some ''statistics'', runConvention := ''europe''\<rparr>\<rparr>]"




section \<open>Properties of the bodies of a batch\<close>

text \<open>
  \<open>keeps I Q p\<close>: whenever a call of \<open>p\<close> is answered on a store with the property
  \<open>I\<close>, the store has it afterwards, and \<open>p\<close> returns only values with the property
  \<open>Q\<close>.
\<close>

primrec keeps :: "(store \<Rightarrow> bool) \<Rightarrow> ('a \<Rightarrow> bool) \<Rightarrow> 'a proc \<Rightarrow> bool" where
  "keeps I Q (Return x) = Q x"
| "keeps I Q (Raise e) = True"
| "keeps I Q Cutoff = True"
| "keeps I Q (Read f) = (\<forall>s. I s \<longrightarrow> keeps I Q (f s))"
| "keeps I Q (Write w p) = ((\<forall>s s'. I s \<longrightarrow> w s = Inr s' \<longrightarrow> I s') \<and> keeps I Q p)"




section \<open>Properties of the traversal\<close>

lemma bindR_Inr_iff:
  "bindR m f = Some (Inr y) \<longleftrightarrow> (\<exists>x. m = Some (Inr x) \<and> f x = Some (Inr y))"
  by (auto simp: bindR_def split: option.splits sum.splits)

lemma visitObject_Suc_cases:
  assumes "visitObject (Suc n) env s context visited object = Some (Inr (found, visited'))"
  shows "(searchAreaOf env context object = None \<and> found = [object] \<and> visited' = visited) \<or>
         (\<exists>cs rest. searchAreaOf env context object = Some (Polygon cs) \<and>
             visitPolygon n env s (objectContextOf context object) visited (Polygon cs)
               = Some (Inr (rest, visited')) \<and> found = object # rest) \<or>
         (\<exists>css rest. searchAreaOf env context object = Some (MultiPolygon css) \<and>
             visitPolygons n env s (objectContextOf context object) visited css
               = Some (Inr (rest, visited')) \<and> found = object # rest)"
  using assms
  by (auto simp: bindR_Inr_iff split: option.splits Geometry.splits)

lemma visitPolygon_cases:
  assumes "visitPolygon n env s context visited g = Some (Inr (found, visited'))"
  shows "\<exists>objects visited1.
           findNearbyObjects env s g
             (if searchPolygon context \<noteq> None then Contains else Intersects) context visited
             = Inr (objects, visited1) \<and>
           (if searchPolygon context \<noteq> None then found = objects \<and> visited' = visited1
            else visitObjects n env s context visited1 objects = Some (Inr (found, visited')))"
  using assms
  by (auto split: sum.splits if_splits)

lemma visitPolygons_Cons_cases:
  assumes "visitPolygons n env s context visited (cs # css) = Some (Inr (found, visited'))"
  shows "\<exists>found1 visited1 found2.
           visitPolygon n env s context visited (Polygon cs) = Some (Inr (found1, visited1)) \<and>
           visitPolygons n env s context visited1 css = Some (Inr (found2, visited')) \<and>
           found = found1 @ found2"
  using assms
  by (auto simp: bindR_Inr_iff)

lemma visitObjects_Cons_cases:
  assumes "visitObjects n env s context visited (object # objects) = Some (Inr (found, visited'))"
  shows "\<exists>found1 visited1 found2.
           visitObject n env s context visited object = Some (Inr (found1, visited1)) \<and>
           visitObjects n env s context visited1 objects = Some (Inr (found2, visited')) \<and>
           found = found1 @ found2"
  using assms
  by (auto simp: bindR_Inr_iff)

lemma findNearbyObjects_cases:
  assumes "findNearbyObjects env s area match context visited = Inr (objects, visited1)"
  shows "(objects = [] \<and> visited1 = visited) \<or>
         (objects = filter (nearbyFilter env area match context visited) s \<and>
          visited1 = visited @ map key objects)"
  using assms
  by (auto simp: findNearbyObjects_def Let_def split: option.splits if_splits)

lemma reached_Nil: "reached s acts visited [] visited"
  by (simp add: reached_def)

lemma reached_query:
  assumes "findNearbyObjects env s area match context visited = Inr (objects, visited1)"
  shows "reached s (ctx_activities context) visited objects visited1"
proof -
  from findNearbyObjects_cases [OF assms]
  show ?thesis
  proof
    assume "objects = [] \<and> visited1 = visited"
    then show ?thesis by (simp add: reached_Nil)
  next
    assume h: "objects = filter (nearbyFilter env area match context visited) s \<and>
               visited1 = visited @ map key objects"
    have a: "set objects \<subseteq> set s" using h by auto
    have b: "set (map key objects) \<inter> set visited = {}"
      using h by (auto simp: nearbyFilter_def)
    have c: "distinct (map key s) \<Longrightarrow> distinct (map key objects)"
      using h by (simp add: distinct_map_filter)
    have d: "\<forall>x \<in> set objects. \<exists>a \<in> set (activities x). a \<in> set (ctx_activities context)"
      using h by (auto simp: nearbyFilter_def list_ex_iff)
    have e: "visited1 = visited @ map key objects" using h by simp
    show ?thesis
      unfolding reached_def
    proof (intro exI conjI)
      show "visited1 = visited @ map key objects" by (rule e)
      show "mset (map key objects) = mset (map key objects)" by simp
      show "set objects \<subseteq> set s" by (rule a)
      show "set (map key objects) \<inter> set visited = {}" by (rule b)
      show "distinct (map key s) \<longrightarrow> distinct (map key objects)" using c by simp
      show "\<forall>x \<in> set objects. \<exists>a \<in> set (activities x). a \<in> set (ctx_activities context)"
        by (rule d)
    qed
  qed
qed

lemma reached_append:
  assumes "reached s acts v f1 v1" and "reached s acts v1 f2 v2"
  shows "reached s acts v (f1 @ f2) v2"
proof -
  from assms(1) obtain n1 where 1: "v1 = v @ n1" "mset (map key f1) = mset n1"
    "set f1 \<subseteq> set s" "set n1 \<inter> set v = {}" "distinct (map key s) \<longrightarrow> distinct n1"
    "\<forall>x \<in> set f1. \<exists>a \<in> set (activities x). a \<in> set acts"
    unfolding reached_def by blast
  from assms(2) obtain n2 where 2: "v2 = v1 @ n2" "mset (map key f2) = mset n2"
    "set f2 \<subseteq> set s" "set n2 \<inter> set v1 = {}" "distinct (map key s) \<longrightarrow> distinct n2"
    "\<forall>x \<in> set f2. \<exists>a \<in> set (activities x). a \<in> set acts"
    unfolding reached_def by blast
  have a: "v2 = v @ (n1 @ n2)" using 1(1) 2(1) by simp
  have b: "mset (map key (f1 @ f2)) = mset (n1 @ n2)" using 1(2) 2(2) by simp
  have c: "set (f1 @ f2) \<subseteq> set s" using 1(3) 2(3) by simp
  have d: "set (n1 @ n2) \<inter> set v = {}" using 1(4) 2(4) 1(1) by auto
  have e: "distinct (map key s) \<longrightarrow> distinct (n1 @ n2)"
    using 1(5) 2(5) 2(4) 1(1) by auto
  have f: "\<forall>x \<in> set (f1 @ f2). \<exists>a \<in> set (activities x). a \<in> set acts"
    using 1(6) 2(6) by auto
  show ?thesis
    unfolding reached_def
  proof (intro exI conjI)
    show "v2 = v @ (n1 @ n2)" by (rule a)
    show "mset (map key (f1 @ f2)) = mset (n1 @ n2)" by (rule b)
    show "set (f1 @ f2) \<subseteq> set s" by (rule c)
    show "set (n1 @ n2) \<inter> set v = {}" by (rule d)
    show "distinct (map key s) \<longrightarrow> distinct (n1 @ n2)" by (rule e)
    show "\<forall>x \<in> set (f1 @ f2). \<exists>a \<in> set (activities x). a \<in> set acts" by (rule f)
  qed
qed

lemma reached_perm:
  assumes "reached s acts v f v'" and "mset f' = mset f"
  shows "reached s acts v f' v'"
proof -
  have "set f' = set f" using assms(2) by (rule mset_eq_setD)
  moreover have "mset (map key f') = mset (map key f)"
    using assms(2) by (metis mset_map)
  ultimately show ?thesis using assms(1) unfolding reached_def by simp
qed

lemma reached_mono:
  assumes "reached s acts v f v'" and "set acts \<subseteq> set acts'"
  shows "reached s acts' v f v'"
proof -
  from assms(1) obtain new where 1: "v' = v @ new" "mset (map key f) = mset new"
    "set f \<subseteq> set s" "set new \<inter> set v = {}" "distinct (map key s) \<longrightarrow> distinct new"
    "\<forall>x \<in> set f. \<exists>a \<in> set (activities x). a \<in> set acts"
    unfolding reached_def by blast
  have g: "\<forall>x \<in> set f. \<exists>a \<in> set (activities x). a \<in> set acts'"
    using 1(6) assms(2) by blast
  show ?thesis
    unfolding reached_def
  proof (intro exI conjI)
    show "v' = v @ new" by (rule 1(1))
    show "mset (map key f) = mset new" by (rule 1(2))
    show "set f \<subseteq> set s" by (rule 1(3))
    show "set new \<inter> set v = {}" by (rule 1(4))
    show "distinct (map key s) \<longrightarrow> distinct new" by (rule 1(5))
    show "\<forall>x \<in> set f. \<exists>a \<in> set (activities x). a \<in> set acts'" by (rule g)
  qed
qed

lemma objectContextOf_activities:
  "set (ctx_activities (objectContextOf context object))
     = set (ctx_activities context) \<inter> set (activities object)"
  by (auto simp: objectContextOf_def)

lemma objectContextOf_searchPolygon [simp]:
  "searchPolygon (objectContextOf context object) = searchPolygon context"
  by (simp add: objectContextOf_def)

lemma visit_reached:
  shows "visitObject n env s c visited object = Some (Inr (found, visited')) \<Longrightarrow>
           \<exists>rest. found = object # rest \<and>
             reached s (ctx_activities (objectContextOf c object)) visited rest visited'"
    and "visitPolygon n env s c visited g = Some (Inr (found, visited')) \<Longrightarrow>
           reached s (ctx_activities c) visited found visited'"
    and "visitPolygons n env s c visited css = Some (Inr (found, visited')) \<Longrightarrow>
           reached s (ctx_activities c) visited found visited'"
    and "visitObjects n env s c visited objects = Some (Inr (found, visited')) \<Longrightarrow>
           \<exists>rest. mset found = mset objects + mset rest \<and>
             reached s (ctx_activities c) visited rest visited'"
proof (induction n env s c visited object and n env s c visited g
         and n env s c visited css and n env s c visited objects
         arbitrary: found visited' and found visited' and found visited' and found visited'
         rule: visitObject_visitPolygon_visitPolygons_visitObjects.induct)
  case (1 env s c visited object)
  then show ?case by simp
next
  case (2 n env s c visited object)
  from visitObject_Suc_cases [OF "2.prems"]
  show ?case
  proof (elim disjE exE conjE)
    assume "found = [object]" "visited' = visited"
    then show ?thesis by (simp add: reached_Nil)
  next
    fix cs rest
    assume a: "searchAreaOf env c object = Some (Polygon cs)"
      and b: "visitPolygon n env s (objectContextOf c object) visited (Polygon cs)
                = Some (Inr (rest, visited'))"
      and c: "found = object # rest"
    from "2.IH"(1) [OF a refl b] c show ?thesis by simp
  next
    fix css rest
    assume a: "searchAreaOf env c object = Some (MultiPolygon css)"
      and b: "visitPolygons n env s (objectContextOf c object) visited css
                = Some (Inr (rest, visited'))"
      and c: "found = object # rest"
    from "2.IH"(2) [OF a refl b] c show ?thesis by simp
  qed
next
  case (3 n env s c visited g)
  from visitPolygon_cases [OF "3.prems"] obtain objects visited1 where
    q: "findNearbyObjects env s g
          (if searchPolygon c \<noteq> None then Contains else Intersects) c visited
          = Inr (objects, visited1)"
    and r: "if searchPolygon c \<noteq> None then found = objects \<and> visited' = visited1
            else visitObjects n env s c visited1 objects = Some (Inr (found, visited'))"
    by blast
  have rq: "reached s (ctx_activities c) visited objects visited1"
    by (rule reached_query [OF q])
  show ?case
  proof (cases "searchPolygon c \<noteq> None")
    case True
    with r rq show ?thesis by simp
  next
    case False
    with r have v: "visitObjects n env s c visited1 objects = Some (Inr (found, visited'))"
      by simp
    from "3.IH" [OF q refl False v] obtain rest where
      m: "mset found = mset objects + mset rest"
      and rr: "reached s (ctx_activities c) visited1 rest visited'"
      by blast
    have "reached s (ctx_activities c) visited (objects @ rest) visited'"
      by (rule reached_append [OF rq rr])
    then show ?thesis
      by (rule reached_perm) (simp add: m)
  qed
next
  case (4 n env s c visited)
  then show ?case by (simp add: reached_Nil)
next
  case (5 n env s c visited cs css)
  from visitPolygons_Cons_cases [OF "5.prems"] obtain found1 visited1 found2 where
    a: "visitPolygon n env s c visited (Polygon cs) = Some (Inr (found1, visited1))"
    and b: "visitPolygons n env s c visited1 css = Some (Inr (found2, visited'))"
    and c: "found = found1 @ found2"
    by blast
  have r1: "reached s (ctx_activities c) visited found1 visited1"
    by (rule "5.IH"(1) [OF a])
  have r2: "reached s (ctx_activities c) visited1 found2 visited'"
    by (rule "5.IH"(2) [OF a refl b])
  show ?case unfolding c by (rule reached_append [OF r1 r2])
next
  case (6 n env s c visited)
  then show ?case by (simp add: reached_Nil)
next
  case (7 n env s c visited object objects)
  from visitObjects_Cons_cases [OF "7.prems"] obtain found1 visited1 found2 where
    a: "visitObject n env s c visited object = Some (Inr (found1, visited1))"
    and b: "visitObjects n env s c visited1 objects = Some (Inr (found2, visited'))"
    and c: "found = found1 @ found2"
    by blast
  from "7.IH"(1) [OF a] obtain rest1 where
    f1: "found1 = object # rest1"
    and r1: "reached s (ctx_activities (objectContextOf c object)) visited rest1 visited1"
    by blast
  from "7.IH"(2) [OF a refl b] obtain rest2 where
    m2: "mset found2 = mset objects + mset rest2"
    and r2: "reached s (ctx_activities c) visited1 rest2 visited'"
    by blast
  have r1': "reached s (ctx_activities c) visited rest1 visited1"
    by (rule reached_mono [OF r1]) (simp add: objectContextOf_activities)
  have "reached s (ctx_activities c) visited (rest1 @ rest2) visited'"
    by (rule reached_append [OF r1' r2])
  moreover have "mset found = mset (object # objects) + mset (rest1 @ rest2)"
    by (simp add: c f1 m2)
  ultimately show ?case by blast
qed

lemma bindR_None_iff:
  "bindR m f = None \<longleftrightarrow> (m = None \<or> (\<exists>x. m = Some (Inr x) \<and> f x = None))"
  by (auto simp: bindR_def split: option.splits sum.splits)

lemma reached_card:
  assumes "reached s acts v f v'"
  shows "card (key ` set s - set v') \<le> card (key ` set s - set v)"
proof -
  from assms obtain new where "v' = v @ new" unfolding reached_def by blast
  then have "key ` set s - set v' \<subseteq> key ` set s - set v" by auto
  then show ?thesis by (simp add: card_mono)
qed

lemma query_card:
  assumes "findNearbyObjects env s area match c visited = Inr (objects, visited1)"
    and "objects \<noteq> []"
  shows "card (key ` set s - set visited1) < card (key ` set s - set visited)"
proof -
  from findNearbyObjects_cases [OF assms(1)] assms(2)
  have h: "objects = filter (nearbyFilter env area match c visited) s"
    and v: "visited1 = visited @ map key objects"
    by auto
  from assms(2) obtain x where x: "x \<in> set objects" by (cases objects) auto
  have xs: "x \<in> set s" using x h by simp
  have xv: "key x \<notin> set visited" using x h by (simp add: nearbyFilter_def)
  have xv1: "key x \<in> set visited1" using x v by simp
  have "key ` set s - set visited1 \<subset> key ` set s - set visited"
    using xs xv xv1 v by auto
  then show ?thesis by (simp add: psubset_card_mono)
qed

lemma visit_fuel:
  shows "card (key ` set s - set visited) < n \<Longrightarrow>
           visitObject n env s c visited object \<noteq> None"
    and "card (key ` set s - set visited) \<le> n \<Longrightarrow>
           visitPolygon n env s c visited g \<noteq> None"
    and "card (key ` set s - set visited) \<le> n \<Longrightarrow>
           visitPolygons n env s c visited css \<noteq> None"
    and "objects = [] \<or> card (key ` set s - set visited) < n \<Longrightarrow>
           visitObjects n env s c visited objects \<noteq> None"
proof (induction n env s c visited object and n env s c visited g
         and n env s c visited css and n env s c visited objects
         rule: visitObject_visitPolygon_visitPolygons_visitObjects.induct)
  case (1 env s c visited object)
  then show ?case by simp
next
  case (2 n env s c visited object)
  have le: "card (key ` set s - set visited) \<le> n" using "2.prems" by simp
  show ?case
  proof (cases "searchAreaOf env c object")
    case None
    then show ?thesis by simp
  next
    case (Some area)
    show ?thesis
    proof (cases area)
      case (Polygon cs)
      from "2.IH"(1) [OF Some Polygon le]
      show ?thesis using Some Polygon by (auto simp: bindR_None_iff)
    next
      case (MultiPolygon css)
      from "2.IH"(2) [OF Some MultiPolygon le]
      show ?thesis using Some MultiPolygon by (auto simp: bindR_None_iff)
    next
      case (Point p)
      then show ?thesis using Some by simp
    next
      case (LineString ps)
      then show ?thesis using Some by simp
    qed
  qed
next
  case (3 n env s c visited g)
  show ?case
  proof (cases "findNearbyObjects env s g
                  (if searchPolygon c \<noteq> None then Contains else Intersects) c visited")
    case (Inl e)
    then show ?thesis by simp
  next
    case (Inr b)
    obtain objects visited1 where b: "b = (objects, visited1)" by (cases b)
    show ?thesis
    proof (cases "searchPolygon c \<noteq> None")
      case True
      then show ?thesis using Inr b by simp
    next
      case False
      have "objects = [] \<or> card (key ` set s - set visited1) < n"
      proof (cases "objects = []")
        case True
        then show ?thesis by simp
      next
        case ne: False
        from query_card [OF Inr [unfolded b] ne] "3.prems"
        show ?thesis by simp
      qed
      from "3.IH" [OF Inr b [symmetric] False this]
      show ?thesis using Inr b False by simp
    qed
  qed
next
  case (4 n env s c visited)
  then show ?case by simp
next
  case (5 n env s c visited cs css)
  have a: "visitPolygon n env s c visited (Polygon cs) \<noteq> None"
    by (rule "5.IH"(1) [OF "5.prems"])
  have b: "visitPolygons n env s c visited1 css \<noteq> None"
    if "visitPolygon n env s c visited (Polygon cs) = Some (Inr (found1, visited1))"
    for found1 visited1
  proof -
    have "card (key ` set s - set visited1) \<le> n"
      using reached_card [OF visit_reached(2) [OF that]] "5.prems" by simp
    from "5.IH"(2) [OF that refl this] show ?thesis .
  qed
  show ?case
    unfolding visitPolygons.simps(2) using a b
    by (auto simp: bindR_None_iff simp del: visitPolygon.simps)
next
  case (6 n env s c visited)
  then show ?case by simp
next
  case (7 n env s c visited object objects)
  have lt: "card (key ` set s - set visited) < n" using "7.prems" by simp
  have a: "visitObject n env s c visited object \<noteq> None"
    by (rule "7.IH"(1) [OF lt])
  have b: "visitObjects n env s c visited1 objects \<noteq> None"
    if "visitObject n env s c visited object = Some (Inr (found1, visited1))"
    for found1 visited1
  proof -
    from visit_reached(1) [OF that] obtain rest where
      "reached s (ctx_activities (objectContextOf c object)) visited rest visited1"
      by blast
    from reached_card [OF this] lt
    have "objects = [] \<or> card (key ` set s - set visited1) < n" by simp
    from "7.IH"(2) [OF that refl this] show ?thesis .
  qed
  show ?case
    unfolding visitObjects.simps(2) using a b
    by (auto simp: bindR_None_iff)
qed

lemma traverse_returns: "traverse env s c object \<noteq> None"
proof -
  have "card (key ` set s - set [key object]) \<le> length s"
    by (metis card_Diff_subset_Int card_image_le card_length diff_le_self finite_set le_trans List.finite_set finite_imageI finite_Int)
  then have "visitObject (Suc (length s)) env s c [key object] object \<noteq> None"
    by (intro visit_fuel(1)) simp
  then show ?thesis
    by (auto simp: traverse_def bindR_None_iff)
qed

section \<open>The claims\<close>

text \<open>
  Claim C6. A visit searches with the activities of its context that the visited object
  has too, and every object a traversal returns, the seed apart, has an activity that
  is both among the activities the traversal started with and among those of the seed.
\<close>

theorem activity_narrowing:
  "set (ctx_activities (objectContextOf c object))
     = set (ctx_activities c) \<inter> set (activities object) \<and>
   (visitObject n env s c visited object = Some (Inr (found, visited')) \<longrightarrow>
      (\<exists>rest. found = object # rest \<and>
         (\<forall>x \<in> set rest. \<exists>a \<in> set (activities x).
            a \<in> set (ctx_activities c) \<and> a \<in> set (activities object))))"
proof (intro conjI impI)
  show "set (ctx_activities (objectContextOf c object))
          = set (ctx_activities c) \<inter> set (activities object)"
    by (rule objectContextOf_activities)
next
  assume "visitObject n env s c visited object = Some (Inr (found, visited'))"
  from visit_reached(1) [OF this] obtain rest where
    f: "found = object # rest"
    and r: "reached s (ctx_activities (objectContextOf c object)) visited rest visited'"
    by blast
  from r have "\<forall>x \<in> set rest. \<exists>a \<in> set (activities x).
                 a \<in> set (ctx_activities (objectContextOf c object))"
    unfolding reached_def by blast
  then have "\<forall>x \<in> set rest. \<exists>a \<in> set (activities x).
               a \<in> set (ctx_activities c) \<and> a \<in> set (activities object)"
    by (simp add: objectContextOf_activities)
  with f show "\<exists>rest. found = object # rest \<and>
         (\<forall>x \<in> set rest. \<exists>a \<in> set (activities x).
            a \<in> set (ctx_activities c) \<and> a \<in> set (activities object))"
    by blast
qed

lemma valley_traversal:
  "visitObject 6 planarEnv valley valleyContext [''r1''] (valley ! 0)
     = Some (Inr ([valley ! 0, valley ! 1, valley ! 2, valley ! 3],
                  [''r1'', ''r2'', ''r3'', ''l1'']))"
  by code_simp

theorem activity_narrowing_witness:
  "visitObject 6 planarEnv valley valleyContext [''r1''] (valley ! 0)
     = Some (Inr ([valley ! 0, valley ! 1, valley ! 2, valley ! 3],
                  [''r1'', ''r2'', ''r3'', ''l1''])) \<and>
   (\<exists>rest. [valley ! 0, valley ! 1, valley ! 2, valley ! 3] = valley ! 0 # rest \<and>
      (\<forall>x \<in> set rest. \<exists>a \<in> set (activities x).
         a \<in> set (ctx_activities valleyContext) \<and> a \<in> set (activities (valley ! 0))))"
  using valley_traversal
    activity_narrowing [THEN conjunct2, rule_format, OF valley_traversal]
  by (rule conjI)

text \<open>
  Claim C10. With unique keys in the store and the key of the seed in
  \<^verbatim>\<open>alreadyVisited\<close>, a traversal returns (the bound of one more than the number of
  documents is never reached) and no key occurs twice in the list it returns.
\<close>

theorem traversal_duplicate_free:
  assumes "distinct (map key s)"
    and "key object \<in> set visited"
  shows "visitObject (Suc (length s)) env s c visited object \<noteq> None \<and>
         (visitObject n env s c visited object = Some (Inr (found, visited')) \<longrightarrow>
            distinct (map key found))"
proof (intro conjI impI)
  have "card (key ` set s - set visited) \<le> card (key ` set s)"
    by (simp add: card_mono)
  also have "\<dots> \<le> length s"
    by (metis card_image_le card_length le_trans List.finite_set)
  finally show "visitObject (Suc (length s)) env s c visited object \<noteq> None"
    by (intro visit_fuel(1)) simp
next
  assume "visitObject n env s c visited object = Some (Inr (found, visited'))"
  from visit_reached(1) [OF this] obtain rest where
    f: "found = object # rest"
    and r: "reached s (ctx_activities (objectContextOf c object)) visited rest visited'"
    by blast
  from r assms(1) obtain new where
    m: "mset (map key rest) = mset new"
    and d: "set new \<inter> set visited = {}"
    and n: "distinct new"
    unfolding reached_def by blast
  have "distinct (map key rest)"
    using m n by (metis mset_eq_imp_distinct_iff)
  moreover have "set (map key rest) = set new"
    using m by (rule mset_eq_setD)
  then have "key object \<notin> set (map key rest)"
    using d assms(2) by blast
  ultimately show "distinct (map key found)"
    using f by simp
qed

lemma valley_distinct: "distinct (map key valley)"
  by code_simp

theorem traversal_duplicate_free_witness:
  "distinct (map key valley) \<and> key (valley ! 1) \<in> set [''r2''] \<and>
   visitObject 6 planarEnv valley valleyContext [''r2''] (valley ! 1)
     = Some (Inr ([valley ! 1, valley ! 0, valley ! 2], [''r2'', ''r1'', ''l1''])) \<and>
   distinct (map key [valley ! 1, valley ! 0, valley ! 2])"
proof -
  have k: "key (valley ! 1) \<in> set [''r2'']" by code_simp
  have v: "visitObject 6 planarEnv valley valleyContext [''r2''] (valley ! 1)
             = Some (Inr ([valley ! 1, valley ! 0, valley ! 2], [''r2'', ''r1'', ''l1'']))"
    by code_simp
  from traversal_duplicate_free [OF valley_distinct k, THEN conjunct2, rule_format, OF v]
    valley_distinct k v
  show ?thesis by (intro conjI)
qed

lemma traverse_result:
  assumes "traverse env s c object = Some (Inr found)"
  shows "\<exists>rest. found = object # rest \<and> set rest \<subseteq> set s"
proof -
  from assms obtain visited' where
    "visitObject (Suc (length s)) env s c [key object] object = Some (Inr (found, visited'))"
    by (auto simp: traverse_def bindR_Inr_iff)
  from visit_reached(1) [OF this] show ?thesis
    unfolding reached_def by blast
qed

lemma ratioExceedsHalf_iff:
  "ratioExceedsHalf a b \<longleftrightarrow> (if b = 0 then a \<noteq> 0 else b < 2 * a)"
proof (cases "b = 0")
  case True
  then show ?thesis by (simp add: ratioExceedsHalf_def)
next
  case False
  then have pos: "(0::rat) < of_nat b" by simp
  have "(1 / 2 < (of_nat a / of_nat b :: rat)) \<longleftrightarrow> ((of_nat b :: rat) < 2 * of_nat a)"
    using pos by (simp add: field_simps)
  also have "\<dots> \<longleftrightarrow> ((of_nat b :: rat) < of_nat (2 * a))" by simp
  also have "\<dots> \<longleftrightarrow> b < 2 * a" by (rule of_nat_less_iff)
  finally show ?thesis using False by (simp add: ratioExceedsHalf_def)
qed

lemma removeDueToNoObjects_polygonPass:
  "removeDueToNoObjects polygonPassOptions members \<longleftrightarrow> (\<forall>m \<in> set members. otype m = SkiArea)"
  by (auto simp: removeDueToNoObjects_def polygonPassOptions_def list_ex_iff)

lemma removeDueToSite_polygonPass:
  "removeDueToSignificantObjectsInSiteRelation polygonPassOptions members \<longleftrightarrow>
     ratioExceedsHalf (length (filter isInSkiAreaSite (filter isLiftOrRun members)))
       (length (filter isLiftOrRun members))"
  by (simp add: removeDueToSignificantObjectsInSiteRelation_def polygonPassOptions_def Let_def)

lemma assign_polygonPass_unfold:
  assumes "prop_id (properties A) \<noteq> []"
    and "isPolygonal (geometry A)"
    and "acts = (if activities A = [] then allSkiAreaActivities else activities A)"
    and "traverse env s
           \<lparr>ctx_id = prop_id (properties A), ctx_activities = acts,
            excludeObjectsAlreadyInSkiAreaPolygon = False,
            searchPolygon = Some (geometry A)\<rparr> (A\<lparr>activities := acts\<rparr>) = Some (Inr members)"
  shows "assignObjectsToSkiArea env polygonPassOptions s A =
           (if removeDueToNoObjects polygonPassOptions members
            then Some (collection_remove (key A) s)
            else if removeDueToSignificantObjectsInSiteRelation polygonPassOptions members
            then Some (collection_remove (key A) s)
            else if activities A = []
            then Some (collection_update (key A)
                   (setActivities (clusteredActivities (A\<lparr>activities := acts\<rparr>) members))
                   (markSkiArea (prop_id (properties A)) True members s))
            else Some (Inr (markSkiArea (prop_id (properties A)) True members s)))"
proof -
  have o: "mergeWithOtherSourceIfNearby polygonPassOptions = False"
    "onlyInPolygon polygonPassOptions = True"
    "onlyIfNotAlreadyAssignedToPolygon polygonPassOptions = False"
    by (simp_all add: polygonPassOptions_def)
  show ?thesis
  proof (cases "activities A = []")
    case True
    then have a: "acts = allSkiAreaActivities" using assms(3) by simp
    show ?thesis
      unfolding assignObjectsToSkiArea_def Let_def o
      using assms(1,2) assms(4) [unfolded a] True
      by (simp add: bindR_def a)
  next
    case False
    then have a: "acts = activities A" using assms(3) by simp
    show ?thesis
      unfolding assignObjectsToSkiArea_def Let_def o
      using assms(1,2) assms(4) [unfolded a] False
      by (simp add: bindR_def a)
  qed
qed

text \<open>
  Claim C1. The polygon pass over a stored ski area \<open>A\<close> with an identifier and a
  polygon geometry, whose traversal returned \<open>members\<close>: \<open>A\<close> is removed when no
  member is a lift or run (every member is a ski area); otherwise it is removed when the
  lifts and runs in a site relation are more than half of a number of lifts and runs
  that is not zero; otherwise \<^verbatim>\<open>markSkiArea\<close> runs with the identifier, \<open>True\<close> and the
  members (and the activities are written back when \<open>A\<close> had none). With no lift or
  run among the members the site rule does not remove.
\<close>

theorem polygon_pass_removal_rules:
  assumes "prop_id (properties A) \<noteq> []"
    and "isPolygonal (geometry A)"
    and "hasKey (key A) s"
    and "acts = (if activities A = [] then allSkiAreaActivities else activities A)"
    and "traverse env s
           \<lparr>ctx_id = prop_id (properties A), ctx_activities = acts,
            excludeObjectsAlreadyInSkiAreaPolygon = False,
            searchPolygon = Some (geometry A)\<rparr> (A\<lparr>activities := acts\<rparr>) = Some (Inr members)"
    and "t = length (filter isLiftOrRun members)"
    and "st = length (filter isInSkiAreaSite (filter isLiftOrRun members))"
  shows "assignObjectsToSkiArea env polygonPassOptions s A =
           (if \<forall>m \<in> set members. otype m = SkiArea
            then Some (Inr (filter (\<lambda>x. key x \<noteq> key A) s))
            else if 0 < t \<and> 1 / 2 < (of_nat st / of_nat t :: rat)
            then Some (Inr (filter (\<lambda>x. key x \<noteq> key A) s))
            else if activities A = []
            then Some (collection_update (key A)
                   (setActivities (clusteredActivities (A\<lparr>activities := acts\<rparr>) members))
                   (markSkiArea (prop_id (properties A)) True members s))
            else Some (Inr (markSkiArea (prop_id (properties A)) True members s))) \<and>
         (t = 0 \<longrightarrow>
            \<not> removeDueToSignificantObjectsInSiteRelation polygonPassOptions members)"
proof -
  have le: "st \<le> t" unfolding assms(6,7) by (rule length_filter_le)
  have r: "ratioExceedsHalf st t \<longleftrightarrow> (0 < t \<and> 1 / 2 < (of_nat st / of_nat t :: rat))"
    using le by (auto simp: ratioExceedsHalf_def)
  have site: "removeDueToSignificantObjectsInSiteRelation polygonPassOptions members
                \<longleftrightarrow> (0 < t \<and> 1 / 2 < (of_nat st / of_nat t :: rat))"
    unfolding removeDueToSite_polygonPass assms(6,7) [symmetric] by (rule r)
  have rem: "collection_remove (key A) s = Inr (filter (\<lambda>x. key x \<noteq> key A) s)"
    using assms(3) by (simp add: collection_remove_def)
  show ?thesis
    unfolding assign_polygonPass_unfold [OF assms(1,2,4,5)]
      removeDueToNoObjects_polygonPass site rem
    by simp
qed

lemma resort_members:
  "traverse planarEnv resort
     \<lparr>ctx_id = ''a'', ctx_activities = [Downhill, Nordic],
      excludeObjectsAlreadyInSkiAreaPolygon = False,
      searchPolygon = Some (geometry (resort ! 0))\<rparr>
     ((resort ! 0)\<lparr>activities := [Downhill, Nordic]\<rparr>)
   = Some (Inr [(resort ! 0)\<lparr>activities := [Downhill, Nordic]\<rparr>, resort ! 1, resort ! 2])"
  by code_simp

text \<open>
  Witness for C1: a polygon with five lifts, four of them in a site relation, is
  removed by the second rule.
\<close>

theorem polygon_pass_removal_rules_witness:
  "prop_id (properties (siteResort ! 0)) \<noteq> [] \<and>
   isPolygonal (geometry (siteResort ! 0)) \<and>
   hasKey (key (siteResort ! 0)) siteResort \<and>
   traverse planarEnv siteResort
     \<lparr>ctx_id = prop_id (properties (siteResort ! 0)), ctx_activities = allSkiAreaActivities,
      excludeObjectsAlreadyInSkiAreaPolygon = False,
      searchPolygon = Some (geometry (siteResort ! 0))\<rparr>
     ((siteResort ! 0)\<lparr>activities := allSkiAreaActivities\<rparr>)
     = Some (Inr ((siteResort ! 0)\<lparr>activities := allSkiAreaActivities\<rparr> # tl siteResort)) \<and>
   length (filter isLiftOrRun
     ((siteResort ! 0)\<lparr>activities := allSkiAreaActivities\<rparr> # tl siteResort)) = 5 \<and>
   length (filter isInSkiAreaSite (filter isLiftOrRun
     ((siteResort ! 0)\<lparr>activities := allSkiAreaActivities\<rparr> # tl siteResort))) = 4 \<and>
   assignObjectsToSkiArea planarEnv polygonPassOptions siteResort (siteResort ! 0)
     = Some (Inr (tl siteResort))"
proof -
  let ?A = "siteResort ! 0"
  let ?members = "?A\<lparr>activities := allSkiAreaActivities\<rparr> # tl siteResort"
  have h1: "prop_id (properties ?A) \<noteq> []" by code_simp
  have h2: "isPolygonal (geometry ?A)" by code_simp
  have h3: "hasKey (key ?A) siteResort" by code_simp
  have h4: "allSkiAreaActivities
              = (if activities ?A = [] then allSkiAreaActivities else activities ?A)"
    by code_simp
  have h5: "traverse planarEnv siteResort
     \<lparr>ctx_id = prop_id (properties ?A), ctx_activities = allSkiAreaActivities,
      excludeObjectsAlreadyInSkiAreaPolygon = False,
      searchPolygon = Some (geometry ?A)\<rparr>
     (?A\<lparr>activities := allSkiAreaActivities\<rparr>) = Some (Inr ?members)"
    by code_simp
  have h6: "5 = length (filter isLiftOrRun ?members)" by code_simp
  have h7: "4 = length (filter isInSkiAreaSite (filter isLiftOrRun ?members))" by code_simp
  have c1: "\<not> (\<forall>m \<in> set ?members. otype m = SkiArea)" by code_simp
  have c2: "0 < (5::nat) \<and> 1 / 2 < (of_nat 4 / of_nat 5 :: rat)" by simp
  have c3: "filter (\<lambda>x. key x \<noteq> key ?A) siteResort = tl siteResort" by code_simp
  from polygon_pass_removal_rules [OF h1 h2 h3 h4 h5 h6 h7, THEN conjunct1]
  have "assignObjectsToSkiArea planarEnv polygonPassOptions siteResort ?A
          = Some (Inr (tl siteResort))"
    by (simp only: c1 c2 c3 if_True if_False simp_thms)
  with h1 h2 h3 h5 h6 [symmetric] h7 [symmetric] show ?thesis by (intro conjI)
qed

lemma markSkiArea_length: "length (markSkiArea i b ms s) = length s"
  by (simp add: markSkiArea_def)

lemma set_aqlAppendUnique: "set (aqlAppendUnique xs vs) = set xs \<union> set vs"
  by (auto simp: aqlAppendUnique_def)

lemma markSkiArea_nth:
  assumes "j < length s"
  shows "key (markSkiArea i b ms s ! j) = key (s ! j)"
    and "otype (markSkiArea i b ms s ! j) = otype (s ! j)"
    and "set (skiAreas (markSkiArea i b ms s ! j))
           = (if key (s ! j) \<in> key ` set ms then insert i (set (skiAreas (s ! j)))
              else set (skiAreas (s ! j)))"
  using assms by (simp_all add: markSkiArea_def set_aqlAppendUnique)

lemma update_setActivities_nth:
  assumes "collection_update k (setActivities a) s = Inr s'"
  shows "length s' = length s"
    and "j < length s \<Longrightarrow> key (s' ! j) = key (s ! j)"
    and "j < length s \<Longrightarrow> otype (s' ! j) = otype (s ! j)"
    and "j < length s \<Longrightarrow> skiAreas (s' ! j) = skiAreas (s ! j)"
proof -
  from assms have s': "s' = map (\<lambda>object. if key object = k
                          then (setActivities a object)\<lparr>key := k\<rparr> else object) s"
    by (auto simp: collection_update_def split: if_splits)
  show "length s' = length s" by (simp add: s')
  show "j < length s \<Longrightarrow> key (s' ! j) = key (s ! j)" by (simp add: s')
  show "j < length s \<Longrightarrow> otype (s' ! j) = otype (s ! j)"
    by (simp add: s' setActivities_def)
  show "j < length s \<Longrightarrow> skiAreas (s' ! j) = skiAreas (s ! j)"
    by (simp add: s' setActivities_def)
qed

lemma collection_remove_hasKey:
  assumes "collection_remove k s = Inr s'"
  shows "\<not> hasKey k s'"
  using assms by (auto simp: collection_remove_def hasKey_def split: if_splits)

text \<open>
  Claim C2, amended. The list given to \<^verbatim>\<open>markSkiArea\<close> is the whole result of the
  traversal: \<open>A\<close> itself, then documents of the store, of any type. When \<open>A\<close> is kept,
  the pass changes no key and no type, and a document holds the identifier of \<open>A\<close>
  afterwards exactly when it held it before or its key is the key of a member; a member
  that is a ski area is marked like a lift or a run.
\<close>

theorem polygon_pass_marks_every_member:
  assumes "prop_id (properties A) \<noteq> []"
    and "isPolygonal (geometry A)"
    and "acts = (if activities A = [] then allSkiAreaActivities else activities A)"
    and "traverse env s
           \<lparr>ctx_id = prop_id (properties A), ctx_activities = acts,
            excludeObjectsAlreadyInSkiAreaPolygon = False,
            searchPolygon = Some (geometry A)\<rparr> (A\<lparr>activities := acts\<rparr>) = Some (Inr members)"
    and "assignObjectsToSkiArea env polygonPassOptions s A = Some (Inr s')"
    and "hasKey (key A) s'"
  shows "(\<exists>rest. members = A\<lparr>activities := acts\<rparr> # rest \<and> set rest \<subseteq> set s) \<and>
         length s' = length s \<and>
         (\<forall>j < length s.
            key (s' ! j) = key (s ! j) \<and> otype (s' ! j) = otype (s ! j) \<and>
            set (skiAreas (s' ! j))
              = (if key (s ! j) \<in> key ` set members
                 then insert (prop_id (properties A)) (set (skiAreas (s ! j)))
                 else set (skiAreas (s ! j))))"
proof -
  let ?s1 = "markSkiArea (prop_id (properties A)) True members s"
  have kept: "s' = ?s1 \<or>
              collection_update (key A)
                (setActivities (clusteredActivities (A\<lparr>activities := acts\<rparr>) members)) ?s1
                = Inr s'"
    using assms(5,6) collection_remove_hasKey [of "key A" s s']
    unfolding assign_polygonPass_unfold [OF assms(1,2,3,4)]
    by (auto split: if_splits)
  have len: "length s' = length s"
    using kept update_setActivities_nth(1) by (auto simp: markSkiArea_length)
  have nth: "key (s' ! j) = key (s ! j) \<and> otype (s' ! j) = otype (s ! j) \<and>
             set (skiAreas (s' ! j))
               = (if key (s ! j) \<in> key ` set members
                  then insert (prop_id (properties A)) (set (skiAreas (s ! j)))
                  else set (skiAreas (s ! j)))" if j: "j < length s" for j
  proof -
    have j1: "j < length ?s1" using j by (simp add: markSkiArea_length)
    from kept show ?thesis
    proof
      assume "s' = ?s1"
      then show ?thesis using markSkiArea_nth [OF j] by simp
    next
      assume u: "collection_update (key A)
                (setActivities (clusteredActivities (A\<lparr>activities := acts\<rparr>) members)) ?s1
                = Inr s'"
      show ?thesis
        using update_setActivities_nth(2,3,4) [OF u j1] markSkiArea_nth [OF j] by simp
    qed
  qed
  from traverse_result [OF assms(4)] len nth show ?thesis by blast
qed

text \<open>
  Counterexample to claim C2 as stated. A polygon ski area \<open>a\<close> holds a run and the
  point of a Skimap.org ski area \<open>b\<close>. The polygon pass keeps \<open>a\<close>, and the ski area
  \<open>b\<close> gains the identifier of \<open>a\<close> in its \<^verbatim>\<open>skiAreas\<close>.
\<close>

theorem polygon_pass_marks_ski_areas:
  "map (\<lambda>x. (key x, otype x, skiAreas x)) resort
     = [(''a'', SkiArea, [''a'']), (''r'', Run, []), (''b'', SkiArea, [''b''])] \<and>
   map_option (map_sum id (map (\<lambda>x. (key x, otype x, skiAreas x))))
     (assignObjectsToSkiArea planarEnv polygonPassOptions resort (resort ! 0))
     = Some (Inr [(''a'', SkiArea, [''a'']), (''r'', Run, [''a'']),
                  (''b'', SkiArea, [''b'', ''a''])])"
  by code_simp

text \<open>
  Witness for the amended C2: the resort of the counterexample; the Skimap.org ski area
  is a member and gains the identifier.
\<close>

theorem polygon_pass_marks_every_member_witness:
  "prop_id (properties (resort ! 0)) \<noteq> [] \<and>
   isPolygonal (geometry (resort ! 0)) \<and>
   traverse planarEnv resort
     \<lparr>ctx_id = prop_id (properties (resort ! 0)), ctx_activities = allSkiAreaActivities,
      excludeObjectsAlreadyInSkiAreaPolygon = False,
      searchPolygon = Some (geometry (resort ! 0))\<rparr>
     ((resort ! 0)\<lparr>activities := allSkiAreaActivities\<rparr>)
     = Some (Inr [(resort ! 0)\<lparr>activities := allSkiAreaActivities\<rparr>, resort ! 1, resort ! 2]) \<and>
   assignObjectsToSkiArea planarEnv polygonPassOptions resort (resort ! 0)
     = Some (Inr resortAfterPolygonPass) \<and>
   hasKey (key (resort ! 0)) resortAfterPolygonPass \<and>
   otype (resortAfterPolygonPass ! 2) = otype (resort ! 2) \<and>
   otype (resort ! 2) = SkiArea \<and>
   set (skiAreas (resortAfterPolygonPass ! 2))
     = insert (prop_id (properties (resort ! 0))) (set (skiAreas (resort ! 2)))"
proof -
  let ?A = "resort ! 0"
  let ?members = "[?A\<lparr>activities := allSkiAreaActivities\<rparr>, resort ! 1, resort ! 2]"
  have h1: "prop_id (properties ?A) \<noteq> []" by code_simp
  have h2: "isPolygonal (geometry ?A)" by code_simp
  have h3: "allSkiAreaActivities
              = (if activities ?A = [] then allSkiAreaActivities else activities ?A)"
    by code_simp
  have h4: "traverse planarEnv resort
     \<lparr>ctx_id = prop_id (properties ?A), ctx_activities = allSkiAreaActivities,
      excludeObjectsAlreadyInSkiAreaPolygon = False,
      searchPolygon = Some (geometry ?A)\<rparr>
     (?A\<lparr>activities := allSkiAreaActivities\<rparr>) = Some (Inr ?members)"
    by code_simp
  have h5: "assignObjectsToSkiArea planarEnv polygonPassOptions resort ?A
              = Some (Inr resortAfterPolygonPass)"
    by code_simp
  have h6: "hasKey (key ?A) resortAfterPolygonPass" by code_simp
  have c1: "(2::nat) < length resort" by code_simp
  have c2: "key (resort ! 2) \<in> key ` set ?members" by code_simp
  have c3: "otype (resort ! 2) = SkiArea" by code_simp
  from polygon_pass_marks_every_member [OF h1 h2 h3 h4 h5 h6, THEN conjunct2, THEN conjunct2,
      rule_format, OF c1]
  have "otype (resortAfterPolygonPass ! 2) = otype (resort ! 2)"
    and "set (skiAreas (resortAfterPolygonPass ! 2))
           = insert (prop_id (properties ?A)) (set (skiAreas (resort ! 2)))"
    by (simp_all only: c2 if_True)
  with h1 h2 h4 h5 h6 c3 show ?thesis by (intro conjI)
qed

lemma nextUnassignedRun_Some:
  assumes "nextUnassignedRun s = Inr (Some run)"
  shows "run \<in> set s" and "isBasisForNewSkiArea run" and "activities run \<noteq> []"
proof -
  from assms obtain rest where f: "filter isBasisForNewSkiArea s = run # rest"
    and a: "activities run \<noteq> []"
    by (auto simp: nextUnassignedRun_def split: list.splits if_splits)
  have "run \<in> set (filter isBasisForNewSkiArea s)" by (simp add: f)
  then show "run \<in> set s" and "isBasisForNewSkiArea run" by simp_all
  show "activities run \<noteq> []" by (rule a)
qed


lemma nextUnassignedRun_Inl:
  "nextUnassignedRun s = Inl e \<Longrightarrow> e = NoActivitiesForRun"
  by (auto simp: nextUnassignedRun_def split: list.splits if_splits)

lemma collection_update_Inr:
  "collection_update k f s = Inr s' \<longleftrightarrow>
     (hasKey k s \<and> s' = map (\<lambda>object. if key object = k then (f object)\<lparr>key := k\<rparr> else object) s)"
  by (auto simp: collection_update_def)

lemma collection_save_Inr:
  "collection_save d s = Inr s' \<longleftrightarrow> (\<not> hasKey (key d) s \<and> s' = s @ [d])"
  by (auto simp: collection_save_def)

lemma hasKey_member: "x \<in> set s \<Longrightarrow> hasKey (key x) s"
  by (auto simp: hasKey_def)

text \<open>The branches of generateSkiAreaForRun, given the result of its traversal.\<close>

lemma generateSkiAreaForRun_unfold:
  assumes "acts0 = filter (\<lambda>a. a \<in> set allSkiAreaActivities) (activities run)"
    and "traverse env s
           \<lparr>ctx_id = newId, ctx_activities = acts0,
            excludeObjectsAlreadyInSkiAreaPolygon = False, searchPolygon = None\<rparr> run
           = Some (Inr found)"
    and "acts = (if lacksLift acts0 found then filter (\<lambda>a. a \<noteq> Downhill) acts0 else acts0)"
    and "members = (if lacksLift acts0 found then filter hasAnotherActivity found else found)"
  shows "generateSkiAreaForRun env newId s run =
           (if acts = [] \<or> members = []
            then Some (collection_update (key run)
                         (\<lambda>object. object\<lparr>isBasisForNewSkiArea := False\<rparr>) s)
            else createGeneratedSkiArea env newId acts members s)"
  unfolding generateSkiAreaForRun_def Let_def
  using assms(2) [unfolded assms(1)]
  by (simp add: bindR_def assms(1,3,4) lacksLift_def list_ex_iff)

lemma createGeneratedSkiArea_Inr:
  "createGeneratedSkiArea env newId acts members s = Some (Inr s') \<longleftrightarrow>
     (\<exists>g. centroid env (map geometry members) = Some g \<and> \<not> hasKey newId s \<and>
          s' = markSkiArea newId False members (s @ [draftSkiArea env newId acts g]))"
  by (auto simp: createGeneratedSkiArea_def bindR_def collection_save_def draftSkiArea_def
           split: option.splits)

lemma generateSkiAreaForRun_outcome:
  assumes "acts0 = filter (\<lambda>a. a \<in> set allSkiAreaActivities) (activities run)"
    and "traverse env s
           \<lparr>ctx_id = newId, ctx_activities = acts0,
            excludeObjectsAlreadyInSkiAreaPolygon = False, searchPolygon = None\<rparr> run
           = Some (Inr found)"
    and "acts = (if lacksLift acts0 found then filter (\<lambda>a. a \<noteq> Downhill) acts0 else acts0)"
    and "members = (if lacksLift acts0 found then filter hasAnotherActivity found else found)"
    and "generateSkiAreaForRun env newId s run = Some (Inr s')"
  shows "if acts = [] \<or> members = []
         then s' = map (\<lambda>object. if key object = key run
                         then object\<lparr>isBasisForNewSkiArea := False\<rparr> else object) s
         else acts \<noteq> [] \<and> set acts \<subseteq> {Downhill, Nordic} \<and> members \<noteq> [] \<and>
              (Downhill \<in> set acts \<longrightarrow> (\<exists>m \<in> set members. otype m = Lift)) \<and>
              (lacksLift acts0 found \<longrightarrow>
                 (\<forall>m \<in> set members. \<exists>a \<in> set (activities m).
                    a \<noteq> Downhill \<and> a \<in> set allSkiAreaActivities)) \<and>
              (\<exists>g. centroid env (map geometry members) = Some g \<and>
                 s' = markSkiArea newId False members (s @ [draftSkiArea env newId acts g]))"
proof (cases "acts = [] \<or> members = []")
  case True
  with assms(5) generateSkiAreaForRun_unfold [OF assms(1,2,3,4)]
  have "collection_update (key run) (\<lambda>object. object\<lparr>isBasisForNewSkiArea := False\<rparr>) s
          = Inr s'"
    by simp
  then have "s' = map (\<lambda>object. if key object = key run
                         then object\<lparr>isBasisForNewSkiArea := False\<rparr> else object) s"
    by (auto simp: collection_update_Inr intro!: map_cong)
  with True show ?thesis by simp
next
  case False
  with assms(5) generateSkiAreaForRun_unfold [OF assms(1,2,3,4)]
  have c: "createGeneratedSkiArea env newId acts members s = Some (Inr s')"
    by simp
  have sub0: "set acts0 \<subseteq> {Downhill, Nordic}"
    unfolding assms(1) by (auto simp: allSkiAreaActivities_def)
  have sub: "set acts \<subseteq> {Downhill, Nordic}"
    using sub0 unfolding assms(3) by auto
  have lift: "Downhill \<in> set acts \<longrightarrow> (\<exists>m \<in> set members. otype m = Lift)"
  proof
    assume d: "Downhill \<in> set acts"
    then have "\<not> lacksLift acts0 found" unfolding assms(3) by (auto split: if_splits)
    moreover from this d have "Downhill \<in> set acts0" unfolding assms(3) by simp
    ultimately show "\<exists>m \<in> set members. otype m = Lift"
      unfolding assms(4) lacksLift_def by auto
  qed
  have other: "lacksLift acts0 found \<longrightarrow>
                 (\<forall>m \<in> set members. \<exists>a \<in> set (activities m).
                    a \<noteq> Downhill \<and> a \<in> set allSkiAreaActivities)"
    unfolding assms(4) by (auto simp: hasAnotherActivity_def list_ex_iff)
  from c have "\<exists>g. centroid env (map geometry members) = Some g \<and>
                 s' = markSkiArea newId False members (s @ [draftSkiArea env newId acts g])"
    unfolding createGeneratedSkiArea_Inr by blast
  with False sub lift other show ?thesis by simp
qed

lemma seed_run_is_member:
  assumes "acts0 = filter (\<lambda>a. a \<in> set allSkiAreaActivities) (activities run)"
    and "found = run # rest"
    and "acts = (if lacksLift acts0 found then filter (\<lambda>a. a \<noteq> Downhill) acts0 else acts0)"
    and "members = (if lacksLift acts0 found then filter hasAnotherActivity found else found)"
    and "acts \<noteq> []"
  shows "run \<in> set members"
proof (cases "lacksLift acts0 found")
  case False
  then show ?thesis unfolding assms(4) assms(2) by simp
next
  case True
  with assms(3,5) have "filter (\<lambda>a. a \<noteq> Downhill) acts0 \<noteq> []" by simp
  then obtain a where "a \<in> set (filter (\<lambda>a. a \<noteq> Downhill) acts0)"
    by (cases "filter (\<lambda>a. a \<noteq> Downhill) acts0") auto
  then have a: "a \<in> set acts0" "a \<noteq> Downhill" by simp_all
  then have "a \<in> set (activities run)" "a \<in> set allSkiAreaActivities"
    unfolding assms(1) by simp_all
  with a(2) have "hasAnotherActivity run"
    unfolding hasAnotherActivity_def list_ex_iff by auto
  with True show ?thesis unfolding assms(4) assms(2) by simp
qed

text \<open>
  Claim C3. \<^verbatim>\<open>generateSkiAreaForRun\<close> for a stored run whose traversal returned \<open>found\<close>:
  the activities are those of the run among Downhill and Nordic, without Downhill when
  no found object is a lift, and then the members are the found objects that have
  another ski area activity. With no activity or no member left, no document is added
  and the run loses \<^verbatim>\<open>isBasisForNewSkiArea\<close>. Otherwise one document is added, the last
  of the store: a generated ski area with the new identifier as its key, whose
  activities, also in its properties, are these activities, not empty and among
  Downhill and Nordic. Of the other documents exactly those with the key of a member
  gain the new identifier in \<^verbatim>\<open>skiAreas\<close>, and they lose \<^verbatim>\<open>isBasisForNewSkiArea\<close>; the
  run is one of them; and when Downhill is among the activities of the ski area, a
  stored lift lists the new identifier.
\<close>

theorem generated_ski_area_invariant:
  assumes "run \<in> set s"
    and "acts0 = filter (\<lambda>a. a \<in> set allSkiAreaActivities) (activities run)"
    and "traverse env s
           \<lparr>ctx_id = newId, ctx_activities = acts0,
            excludeObjectsAlreadyInSkiAreaPolygon = False, searchPolygon = None\<rparr> run
           = Some (Inr found)"
    and "acts = (if lacksLift acts0 found then filter (\<lambda>a. a \<noteq> Downhill) acts0 else acts0)"
    and "members = (if lacksLift acts0 found then filter hasAnotherActivity found else found)"
    and "generateSkiAreaForRun env newId s run = Some (Inr s')"
  shows "if acts = [] \<or> members = []
         then s' = map (\<lambda>object. if key object = key run
                         then object\<lparr>isBasisForNewSkiArea := False\<rparr> else object) s
         else acts \<noteq> [] \<and> set acts \<subseteq> {Downhill, Nordic} \<and> members \<noteq> [] \<and>
              (Downhill \<in> set acts \<longrightarrow> (\<exists>m \<in> set members. otype m = Lift)) \<and>
              (lacksLift acts0 found \<longrightarrow>
                 (\<forall>m \<in> set members. \<exists>a \<in> set (activities m).
                    a \<noteq> Downhill \<and> a \<in> set allSkiAreaActivities)) \<and>
              (\<exists>g. centroid env (map geometry members) = Some g \<and>
                 s' = markSkiArea newId False members (s @ [draftSkiArea env newId acts g])) \<and>
              length s' = Suc (length s) \<and>
              key (s' ! length s) = newId \<and> otype (s' ! length s) = SkiArea \<and>
              generated (properties (s' ! length s)) \<and>
              activities (s' ! length s) = acts \<and>
              prop_activities (properties (s' ! length s)) = acts \<and>
              (\<forall>j < length s.
                 key (s' ! j) = key (s ! j) \<and> otype (s' ! j) = otype (s ! j) \<and>
                 set (skiAreas (s' ! j))
                   = (if key (s ! j) \<in> key ` set members
                      then insert newId (set (skiAreas (s ! j))) else set (skiAreas (s ! j))) \<and>
                 (key (s ! j) \<in> key ` set members \<longrightarrow> \<not> isBasisForNewSkiArea (s' ! j))) \<and>
              key run \<in> key ` set members \<and>
              (Downhill \<in> set acts \<longrightarrow>
                 (\<exists>x \<in> set s'. otype x = Lift \<and> newId \<in> set (skiAreas x)))"
proof (cases "acts = [] \<or> members = []")
  case True
  with generateSkiAreaForRun_outcome [OF assms(2,3,4,5,6)] show ?thesis by simp
next
  case False
  with generateSkiAreaForRun_outcome [OF assms(2,3,4,5,6)]
  have old: "acts \<noteq> [] \<and> set acts \<subseteq> {Downhill, Nordic} \<and> members \<noteq> [] \<and>
              (Downhill \<in> set acts \<longrightarrow> (\<exists>m \<in> set members. otype m = Lift)) \<and>
              (lacksLift acts0 found \<longrightarrow>
                 (\<forall>m \<in> set members. \<exists>a \<in> set (activities m).
                    a \<noteq> Downhill \<and> a \<in> set allSkiAreaActivities)) \<and>
              (\<exists>g. centroid env (map geometry members) = Some g \<and>
                 s' = markSkiArea newId False members (s @ [draftSkiArea env newId acts g]))"
    by simp
  then obtain g where s': "s' = markSkiArea newId False members (s @ [draftSkiArea env newId acts g])"
    by blast
  let ?d = "draftSkiArea env newId acts g"
  have len: "length s' = Suc (length s)" unfolding s' by (simp add: markSkiArea_def)
  have last: "s' ! length s
      = (if key ?d \<in> set (map key members)
         then ?d\<lparr>isBasisForNewSkiArea := False,
                 isInSkiAreaPolygon := (isInSkiAreaPolygon ?d \<or> False),
                 skiAreas := aqlAppendUnique (skiAreas ?d) [newId]\<rparr>
         else ?d)"
    unfolding s' markSkiArea_def by (simp add: nth_append)
  have new: "key (s' ! length s) = newId" "otype (s' ! length s) = SkiArea"
    "generated (properties (s' ! length s))" "activities (s' ! length s) = acts"
    "prop_activities (properties (s' ! length s)) = acts"
    unfolding last by (simp_all add: draftSkiArea_def)
  have others: "key (s' ! j) = key (s ! j) \<and> otype (s' ! j) = otype (s ! j) \<and>
                 set (skiAreas (s' ! j))
                   = (if key (s ! j) \<in> key ` set members
                      then insert newId (set (skiAreas (s ! j))) else set (skiAreas (s ! j))) \<and>
                 (key (s ! j) \<in> key ` set members \<longrightarrow> \<not> isBasisForNewSkiArea (s' ! j))"
    if "j < length s" for j
    using that unfolding s' markSkiArea_def by (simp add: nth_append set_aqlAppendUnique)
  from traverse_result [OF assms(3)] obtain rest where
    found: "found = run # rest" and rest: "set rest \<subseteq> set s" by blast
  from old have "acts \<noteq> []" by simp
  from seed_run_is_member [OF assms(2) found assms(4,5) this]
  have seed: "key run \<in> key ` set members" by (rule imageI)
  have stored: "set members \<subseteq> set s"
    using assms(1) rest unfolding assms(5) found by auto
  have lift: "\<exists>x \<in> set s'. otype x = Lift \<and> newId \<in> set (skiAreas x)"
    if "Downhill \<in> set acts"
  proof -
    from old that obtain m where m: "m \<in> set members" "otype m = Lift" by blast
    with stored have "m \<in> set s" by auto
    then obtain j where j: "j < length s" "s ! j = m" by (auto simp: in_set_conv_nth)
    from others [OF j(1)] j(2) m
    have "otype (s' ! j) = Lift" "newId \<in> set (skiAreas (s' ! j))" by auto
    moreover have "s' ! j \<in> set s'" using j(1) len by simp
    ultimately show ?thesis by blast
  qed
  from False old len new others seed lift show ?thesis by simp
qed

text \<open>
  Witness for C3: a run for both activities, a downhill run and a nordic run close by,
  and no lift. Downhill is dropped, the downhill run is not a member, and the new ski
  area is nordic; the two members gain its identifier, the downhill run does not.
\<close>

theorem generated_ski_area_invariant_witness:
  "nordicValley ! 0 \<in> set nordicValley \<and>
   [Downhill, Nordic]
     = filter (\<lambda>a. a \<in> set allSkiAreaActivities) (activities (nordicValley ! 0)) \<and>
   traverse planarEnv nordicValley
     \<lparr>ctx_id = ''g'', ctx_activities = [Downhill, Nordic],
      excludeObjectsAlreadyInSkiAreaPolygon = False, searchPolygon = None\<rparr> (nordicValley ! 0)
     = Some (Inr [nordicValley ! 0, nordicValley ! 1, nordicValley ! 2]) \<and>
   lacksLift [Downhill, Nordic] [nordicValley ! 0, nordicValley ! 1, nordicValley ! 2] \<and>
   generateSkiAreaForRun planarEnv ''g'' nordicValley (nordicValley ! 0)
     = Some (Inr (markSkiArea ''g'' False [nordicValley ! 0, nordicValley ! 2]
                   (nordicValley @ [draftSkiArea planarEnv ''g'' [Nordic] (Point (0, 15/16))]))) \<and>
   set [Nordic] \<subseteq> {Downhill, Nordic} \<and>
   (\<exists>g. centroid planarEnv (map geometry [nordicValley ! 0, nordicValley ! 2]) = Some g \<and>
      markSkiArea ''g'' False [nordicValley ! 0, nordicValley ! 2]
        (nordicValley @ [draftSkiArea planarEnv ''g'' [Nordic] (Point (0, 15/16))])
      = markSkiArea ''g'' False [nordicValley ! 0, nordicValley ! 2]
          (nordicValley @ [draftSkiArea planarEnv ''g'' [Nordic] g])) \<and>
   activities (markSkiArea ''g'' False [nordicValley ! 0, nordicValley ! 2]
        (nordicValley @ [draftSkiArea planarEnv ''g'' [Nordic] (Point (0, 15/16))])
      ! length nordicValley) = [Nordic] \<and>
   set (skiAreas (markSkiArea ''g'' False [nordicValley ! 0, nordicValley ! 2]
        (nordicValley @ [draftSkiArea planarEnv ''g'' [Nordic] (Point (0, 15/16))]) ! 2))
     = insert ''g'' (set (skiAreas (nordicValley ! 2))) \<and>
   set (skiAreas (markSkiArea ''g'' False [nordicValley ! 0, nordicValley ! 2]
        (nordicValley @ [draftSkiArea planarEnv ''g'' [Nordic] (Point (0, 15/16))]) ! 1))
     = set (skiAreas (nordicValley ! 1))"
proof -
  let ?found = "[nordicValley ! 0, nordicValley ! 1, nordicValley ! 2]"
  let ?members = "[nordicValley ! 0, nordicValley ! 2]"
  let ?s' = "markSkiArea ''g'' False ?members
               (nordicValley @ [draftSkiArea planarEnv ''g'' [Nordic] (Point (0, 15/16))])"
  have h0: "nordicValley ! 0 \<in> set nordicValley" by code_simp
  have h1: "[Downhill, Nordic]
     = filter (\<lambda>a. a \<in> set allSkiAreaActivities) (activities (nordicValley ! 0))"
    by code_simp
  have h2: "traverse planarEnv nordicValley
     \<lparr>ctx_id = ''g'', ctx_activities = [Downhill, Nordic],
      excludeObjectsAlreadyInSkiAreaPolygon = False, searchPolygon = None\<rparr> (nordicValley ! 0)
     = Some (Inr ?found)"
    by code_simp
  have l: "lacksLift [Downhill, Nordic] ?found"
    unfolding lacksLift_def by code_simp
  have h3: "[Nordic] = (if lacksLift [Downhill, Nordic] ?found
                        then filter (\<lambda>a. a \<noteq> Downhill) [Downhill, Nordic]
                        else [Downhill, Nordic])"
    using l by simp
  have m: "filter hasAnotherActivity ?found = ?members" by code_simp
  have h4: "?members = (if lacksLift [Downhill, Nordic] ?found
                        then filter hasAnotherActivity ?found else ?found)"
    using l m by simp
  have h5: "generateSkiAreaForRun planarEnv ''g'' nordicValley (nordicValley ! 0)
              = Some (Inr ?s')"
    by code_simp
  have k2: "key (nordicValley ! 2) \<in> key ` set ?members" by code_simp
  have k1: "key (nordicValley ! 1) \<notin> key ` set ?members" by code_simp
  have l1: "(1::nat) < length nordicValley" and l2: "(2::nat) < length nordicValley"
    by code_simp+
  note t = generated_ski_area_invariant [OF h0 h1 h2 h3 h4 h5]
  from t have a: "set [Nordic] \<subseteq> {Downhill, Nordic}"
    and b: "\<exists>g. centroid planarEnv (map geometry ?members) = Some g \<and>
           ?s' = markSkiArea ''g'' False ?members
                   (nordicValley @ [draftSkiArea planarEnv ''g'' [Nordic] g])"
    and c: "activities (?s' ! length nordicValley) = [Nordic]"
    and d: "\<forall>j < length nordicValley.
                 key (?s' ! j) = key (nordicValley ! j) \<and>
                 otype (?s' ! j) = otype (nordicValley ! j) \<and>
                 set (skiAreas (?s' ! j))
                   = (if key (nordicValley ! j) \<in> key ` set ?members
                      then insert ''g'' (set (skiAreas (nordicValley ! j)))
                      else set (skiAreas (nordicValley ! j))) \<and>
                 (key (nordicValley ! j) \<in> key ` set ?members
                    \<longrightarrow> \<not> isBasisForNewSkiArea (?s' ! j))"
    by simp_all
  from d [rule_format, OF l2] k2
  have e: "set (skiAreas (?s' ! 2)) = insert ''g'' (set (skiAreas (nordicValley ! 2)))"
    by (simp only: if_True)
  from d [rule_format, OF l1] k1
  have f: "set (skiAreas (?s' ! 1)) = set (skiAreas (nordicValley ! 1))"
    by (simp only: if_False)
  from h0 h1 h2 l h5 a b c e f show ?thesis by (intro conjI)
qed

lemma filter_map_length_le:
  assumes "\<And>x. x \<in> set s \<Longrightarrow> P (f x) \<Longrightarrow> P x"
  shows "length (filter P (map f s)) \<le> length (filter P s)"
  using assms
proof (induction s)
  case Nil
  then show ?case by simp
next
  case (Cons y s)
  then have "length (filter P (map f s)) \<le> length (filter P s)" by simp
  then show ?case using Cons.prems [of y] by (auto intro: le_SucI)
qed

lemma filter_map_length_less:
  assumes "\<And>x. x \<in> set s \<Longrightarrow> P (f x) \<Longrightarrow> P x"
    and "x \<in> set s" and "P x" and "\<not> P (f x)"
  shows "length (filter P (map f s)) < length (filter P s)"
  using assms
proof (induction s)
  case Nil
  then show ?case by simp
next
  case (Cons y s)
  have le: "length (filter P (map f s)) \<le> length (filter P s)"
    by (rule filter_map_length_le) (simp add: Cons.prems(1))
  show ?case
  proof (cases "x = y")
    case True
    then show ?thesis using Cons.prems(3,4) le by simp
  next
    case False
    then have "x \<in> set s" using Cons.prems(2) by simp
    from Cons.IH [OF _ this Cons.prems(3,4)] Cons.prems(1)
    have "length (filter P (map f s)) < length (filter P s)" by simp
    then show ?thesis using Cons.prems(1) [of y] by auto
  qed
qed

lemma markSkiArea_basis_less:
  assumes "run \<in> set s" and "isBasisForNewSkiArea run" and "key run \<in> key ` set members"
  shows "length (filter isBasisForNewSkiArea (markSkiArea i b members s))
           < length (filter isBasisForNewSkiArea s)"
  unfolding markSkiArea_def
  by (rule filter_map_length_less [where x = run]) (use assms in \<open>auto split: if_splits\<close>)

lemma markSkiArea_append:
  "markSkiArea i b members (s @ t) = markSkiArea i b members s @ markSkiArea i b members t"
  by (simp add: markSkiArea_def)

lemma markSkiArea_basis:
  "isBasisForNewSkiArea x' \<Longrightarrow> x' \<in> set (markSkiArea i b members [x]) \<Longrightarrow> isBasisForNewSkiArea x"
  by (auto simp: markSkiArea_def split: if_splits)

lemma generateSkiAreaForRun_decreases:
  assumes "nextUnassignedRun s = Inr (Some run)"
    and "generateSkiAreaForRun env newId s run = Some (Inr s')"
  shows "length (filter isBasisForNewSkiArea s') < length (filter isBasisForNewSkiArea s)"
proof -
  note r = nextUnassignedRun_Some [OF assms(1)]
  define acts0 where "acts0 = filter (\<lambda>a. a \<in> set allSkiAreaActivities) (activities run)"
  from traverse_returns [of env s "\<lparr>ctx_id = newId, ctx_activities = acts0,
            excludeObjectsAlreadyInSkiAreaPolygon = False, searchPolygon = None\<rparr>" run]
  obtain res where t: "traverse env s \<lparr>ctx_id = newId, ctx_activities = acts0,
            excludeObjectsAlreadyInSkiAreaPolygon = False, searchPolygon = None\<rparr> run = Some res"
    by blast
  have "\<exists>found. res = Inr found"
  proof (cases res)
    case (Inl e)
    with t assms(2) show ?thesis
      by (simp add: generateSkiAreaForRun_def Let_def bindR_def acts0_def)
  next
    case (Inr found)
    then show ?thesis by blast
  qed
  then obtain found where f: "traverse env s \<lparr>ctx_id = newId, ctx_activities = acts0,
            excludeObjectsAlreadyInSkiAreaPolygon = False, searchPolygon = None\<rparr> run
            = Some (Inr found)"
    using t by blast
  from traverse_result [OF f] obtain rest where found: "found = run # rest" by blast
  define acts where
    "acts = (if lacksLift acts0 found then filter (\<lambda>a. a \<noteq> Downhill) acts0 else acts0)"
  define members where
    "members = (if lacksLift acts0 found then filter hasAnotherActivity found else found)"
  note inv = generateSkiAreaForRun_outcome [OF acts0_def f acts_def members_def assms(2)]
  show ?thesis
  proof (cases "acts = [] \<or> members = []")
    case True
    with inv have s': "s' = map (\<lambda>object. if key object = key run
                         then object\<lparr>isBasisForNewSkiArea := False\<rparr> else object) s"
      by simp
    show ?thesis
      unfolding s'
      by (rule filter_map_length_less [where x = run]) (use r in \<open>auto split: if_splits\<close>)
  next
    case False
    with inv obtain g where
      s': "s' = markSkiArea newId False members (s @ [draftSkiArea env newId acts g])"
      by auto
    have "run \<in> set members"
    proof (cases "lacksLift acts0 found")
      case l: True
      with False have "filter (\<lambda>a. a \<noteq> Downhill) acts0 \<noteq> []" by (simp add: acts_def)
      then obtain a where "a \<in> set acts0" "a \<noteq> Downhill"
        by (auto simp: filter_empty_conv)
      then have "hasAnotherActivity run"
        by (auto simp: hasAnotherActivity_def list_ex_iff acts0_def)
      then show ?thesis using l by (simp add: members_def found)
    next
      case False
      then show ?thesis by (simp add: members_def found)
    qed
    then have k: "key run \<in> key ` set members" by blast
    have d: "filter isBasisForNewSkiArea
               (markSkiArea newId False members [draftSkiArea env newId acts g]) = []"
      by (auto simp: filter_empty_conv draftSkiArea_def dest!: markSkiArea_basis [rotated])
    show ?thesis
      unfolding s' markSkiArea_append filter_append length_append d
      using markSkiArea_basis_less [OF r(1,2) k] by simp
  qed
qed

lemma bindR_Inl_iff:
  "bindR m f = Some (Inl e) \<longleftrightarrow>
     (m = Some (Inl e) \<or> (\<exists>x. m = Some (Inr x) \<and> f x = Some (Inl e)))"
  by (auto simp: bindR_def split: option.splits sum.splits)

lemma visit_no_raise:
  shows "(\<forall>g. queryFailure env g = None) \<and>
         (\<forall>g d a. bufferGeometry env g d = Some a \<longrightarrow> isPolygonal a) \<Longrightarrow>
         (\<forall>p. searchPolygon c = Some p \<longrightarrow> isPolygonal p) \<Longrightarrow>
           visitObject n env s c visited object \<noteq> Some (Inl e)"
    and "(\<forall>g. queryFailure env g = None) \<and>
         (\<forall>g d a. bufferGeometry env g d = Some a \<longrightarrow> isPolygonal a) \<Longrightarrow>
         (\<forall>p. searchPolygon c = Some p \<longrightarrow> isPolygonal p) \<Longrightarrow>
           visitPolygon n env s c visited g \<noteq> Some (Inl e)"
    and "(\<forall>g. queryFailure env g = None) \<and>
         (\<forall>g d a. bufferGeometry env g d = Some a \<longrightarrow> isPolygonal a) \<Longrightarrow>
         (\<forall>p. searchPolygon c = Some p \<longrightarrow> isPolygonal p) \<Longrightarrow>
           visitPolygons n env s c visited css \<noteq> Some (Inl e)"
    and "(\<forall>g. queryFailure env g = None) \<and>
         (\<forall>g d a. bufferGeometry env g d = Some a \<longrightarrow> isPolygonal a) \<Longrightarrow>
         (\<forall>p. searchPolygon c = Some p \<longrightarrow> isPolygonal p) \<Longrightarrow>
           visitObjects n env s c visited objects \<noteq> Some (Inl e)"
proof (induction n env s c visited object and n env s c visited g
         and n env s c visited css and n env s c visited objects
         rule: visitObject_visitPolygon_visitPolygons_visitObjects.induct)
  case (1 env s c visited object)
  then show ?case by simp
next
  case (2 n env s c visited object)
  note w = "2.prems"(1)
  have p: "\<forall>p. searchPolygon (objectContextOf c object) = Some p \<longrightarrow> isPolygonal p"
    using "2.prems"(2) by simp
  show ?case
  proof (cases "searchAreaOf env c object")
    case None
    then show ?thesis by simp
  next
    case (Some area)
    have "isPolygonal area"
    proof (cases "searchPolygon c")
      case None
      then have "bufferGeometry env (geometry object) maxDistanceInKilometers = Some area"
        using Some by (simp add: searchAreaOf_def)
      with w show ?thesis by blast
    next
      case sp: (Some p)
      then have "area = p" using Some by (simp add: searchAreaOf_def)
      with sp "2.prems"(2) show ?thesis by blast
    qed
    then show ?thesis
    proof (cases area)
      case (Polygon cs)
      from "2.IH"(1) [OF Some Polygon w p]
      show ?thesis using Some Polygon by (auto simp: bindR_Inl_iff)
    next
      case (MultiPolygon css)
      from "2.IH"(2) [OF Some MultiPolygon w p]
      show ?thesis using Some MultiPolygon by (auto simp: bindR_Inl_iff)
    qed (simp_all add: isPolygonal_def)
  qed
next
  case (3 n env s c visited g)
  show ?case
  proof (cases "findNearbyObjects env s g
                  (if searchPolygon c \<noteq> None then Contains else Intersects) c visited")
    case (Inl e')
    then show ?thesis using "3.prems"(1) by (simp add: findNearbyObjects_def Let_def)
  next
    case (Inr r)
    obtain objects visited1 where r: "r = (objects, visited1)" by (cases r)
    show ?thesis
    proof (cases "searchPolygon c \<noteq> None")
      case True
      then show ?thesis using Inr r by simp
    next
      case False
      from "3.IH" [OF Inr r [symmetric] False "3.prems"]
      show ?thesis using Inr r False by simp
    qed
  qed
next
  case (4 n env s c visited)
  then show ?case by simp
next
  case (5 n env s c visited cs css)
  have a: "visitPolygon n env s c visited (Polygon cs) \<noteq> Some (Inl e)"
    by (rule "5.IH"(1) [OF "5.prems"])
  have b: "visitPolygons n env s c visited1 css \<noteq> Some (Inl e)"
    if "visitPolygon n env s c visited (Polygon cs) = Some (Inr (found1, visited1))"
    for found1 visited1
    by (rule "5.IH"(2) [OF that refl "5.prems"])
  show ?case
    unfolding visitPolygons.simps(2) using a b
    by (auto simp: bindR_Inl_iff)
next
  case (6 n env s c visited)
  then show ?case by simp
next
  case (7 n env s c visited object objects)
  have a: "visitObject n env s c visited object \<noteq> Some (Inl e)"
    by (rule "7.IH"(1) [OF "7.prems"])
  have b: "visitObjects n env s c visited1 objects \<noteq> Some (Inl e)"
    if "visitObject n env s c visited object = Some (Inr (found1, visited1))"
    for found1 visited1
    by (rule "7.IH"(2) [OF that refl "7.prems"])
  show ?case
    unfolding visitObjects.simps(2) using a b
    by (auto simp: bindR_Inl_iff)
qed

lemma traverse_succeeds:
  assumes "wellBehaved env" and "\<forall>p. searchPolygon c = Some p \<longrightarrow> isPolygonal p"
  shows "\<exists>found. traverse env s c object = Some (Inr found)"
proof -
  from assms(1) have w: "(\<forall>g. queryFailure env g = None) \<and>
         (\<forall>g d a. bufferGeometry env g d = Some a \<longrightarrow> isPolygonal a)"
    by (simp add: wellBehaved_def)
  have n: "traverse env s c object \<noteq> None" by (rule traverse_returns)
  have "traverse env s c object \<noteq> Some (Inl e)" for e
    using visit_no_raise(1) [OF w assms(2), of "Suc (length s)" s "[key object]" object e]
    by (auto simp: traverse_def bindR_Inl_iff)
  with n show ?thesis
    by (cases "traverse env s c object") (auto intro: sum.exhaust)
qed

lemma generateSkiAreaForRun_succeeds:
  assumes "wellBehaved env" and "run \<in> set s" and "\<not> hasKey newId s"
  shows "\<exists>s'. generateSkiAreaForRun env newId s run = Some (Inr s') \<and>
              key ` set s' \<subseteq> insert newId (key ` set s)"
proof -
  define acts0 where "acts0 = filter (\<lambda>a. a \<in> set allSkiAreaActivities) (activities run)"
  from traverse_succeeds [OF assms(1), of "\<lparr>ctx_id = newId, ctx_activities = acts0,
            excludeObjectsAlreadyInSkiAreaPolygon = False, searchPolygon = None\<rparr>" s run]
  obtain found where f: "traverse env s \<lparr>ctx_id = newId, ctx_activities = acts0,
            excludeObjectsAlreadyInSkiAreaPolygon = False, searchPolygon = None\<rparr> run
            = Some (Inr found)"
    by auto
  define acts where
    "acts = (if lacksLift acts0 found then filter (\<lambda>a. a \<noteq> Downhill) acts0 else acts0)"
  define members where
    "members = (if lacksLift acts0 found then filter hasAnotherActivity found else found)"
  note u = generateSkiAreaForRun_unfold [OF acts0_def f acts_def members_def]
  show ?thesis
  proof (cases "acts = [] \<or> members = []")
    case True
    have "hasKey (key run) s" using assms(2) by (rule hasKey_member)
    then have "collection_update (key run) (\<lambda>object. object\<lparr>isBasisForNewSkiArea := False\<rparr>) s
                 = Inr (map (\<lambda>object. if key object = key run
                          then object\<lparr>isBasisForNewSkiArea := False, key := key run\<rparr>
                          else object) s)"
      by (simp add: collection_update_def)
    moreover have "map key (map (\<lambda>object. if key object = key run
                          then object\<lparr>isBasisForNewSkiArea := False, key := key run\<rparr>
                          else object) s) = map key s"
      by (induction s) simp_all
    then have "key ` set (map (\<lambda>object. if key object = key run
                          then object\<lparr>isBasisForNewSkiArea := False, key := key run\<rparr>
                          else object) s) \<subseteq> insert newId (key ` set s)"
      by (metis set_map subset_insertI)
    ultimately show ?thesis
      unfolding u using True by simp
  next
    case False
    then have "map geometry members \<noteq> []" by simp
    with assms(1) obtain g where g: "centroid env (map geometry members) = Some g"
      unfolding wellBehaved_def by blast
    have "createGeneratedSkiArea env newId acts members s
            = Some (Inr (markSkiArea newId False members (s @ [draftSkiArea env newId acts g])))"
      unfolding createGeneratedSkiArea_Inr using g assms(3) by blast
    moreover have "map key (markSkiArea newId False members
                               (s @ [draftSkiArea env newId acts g])) = map key s @ [newId]"
      by (simp add: markSkiArea_def draftSkiArea_def comp_def if_distrib cong: if_cong)
    then have "key ` set (markSkiArea newId False members
                               (s @ [draftSkiArea env newId acts g]))
                     \<subseteq> insert newId (key ` set s)"
      by (metis eq_iff insert_is_Un list.set(1,2) set_append set_map sup_commute)
    ultimately show ?thesis unfolding u using False by simp
  qed
qed

lemma generateSkiAreasForUnassignedObjects_returns:
  assumes "wellBehaved env" and "inj (uuid env)"
  shows "length (filter isBasisForNewSkiArea s) < n \<Longrightarrow>
         (\<forall>j. uuid env (k + j) \<notin> key ` set s) \<Longrightarrow>
         \<exists>r. generateSkiAreasForUnassignedObjects n env k s = Some r"
proof (induction n arbitrary: k s)
  case 0
  then show ?case by simp
next
  case (Suc n)
  show ?case
  proof (cases "nextUnassignedRun s")
    case (Inl e)
    then show ?thesis by simp
  next
    case (Inr next')
    show ?thesis
    proof (cases next')
      case None
      then show ?thesis using Inr by simp
    next
      case (Some run)
      note r = nextUnassignedRun_Some [OF Inr [unfolded Some]]
      have "uuid env k \<notin> key ` set s"
        using Suc.prems(2) [rule_format, of 0] by simp
      then have fresh: "\<not> hasKey (uuid env k) s"
        by (force simp: hasKey_def)
      from generateSkiAreaForRun_succeeds [OF assms(1) r(1) fresh]
      obtain s' where g: "generateSkiAreaForRun env (uuid env k) s run = Some (Inr s')"
        and keys: "key ` set s' \<subseteq> insert (uuid env k) (key ` set s)"
        by blast
      have less: "length (filter isBasisForNewSkiArea s') < n"
        using generateSkiAreaForRun_decreases [OF Inr [unfolded Some] g] Suc.prems(1) by simp
      have fresh': "\<forall>j. uuid env (Suc k + j) \<notin> key ` set s'"
      proof
        fix j
        have "uuid env (Suc k + j) \<noteq> uuid env k"
          using assms(2) by (auto dest: injD)
        moreover have "uuid env (Suc k + j) \<notin> key ` set s"
          using Suc.prems(2) [rule_format, of "Suc j"] by simp
        ultimately show "uuid env (Suc k + j) \<notin> key ` set s'" using keys by blast
      qed
      from Suc.IH [OF less fresh'] show ?thesis using Inr Some g by simp
    qed
  qed
qed

text \<open>
  Claim C8. An iteration of the loop of phase 4 that returns leaves fewer documents with
  \<^verbatim>\<open>isBasisForNewSkiArea\<close> than it found. When the queries succeed, the buffer and the
  centroid return what their types promise and \<^verbatim>\<open>uuid()\<close> returns keys that are new, the
  loop ends within as many iterations as there are such documents (one more call of
  \<^verbatim>\<open>nextUnassignedRun\<close> finds none).
\<close>

theorem synthesis_terminates:
  "(nextUnassignedRun s = Inr (Some run) \<and>
    generateSkiAreaForRun env newId s run = Some (Inr s') \<longrightarrow>
      length (filter isBasisForNewSkiArea s') < length (filter isBasisForNewSkiArea s)) \<and>
   (wellBehaved env \<and> inj (uuid env) \<and> (\<forall>j. uuid env (k + j) \<notin> key ` set s) \<longrightarrow>
      (\<exists>r. generateSkiAreasForUnassignedObjects
              (Suc (length (filter isBasisForNewSkiArea s))) env k s = Some r))"
  using generateSkiAreaForRun_decreases generateSkiAreasForUnassignedObjects_returns
  by blast

lemma wellBehaved_steadyEnv: "wellBehaved steadyEnv"
  unfolding wellBehaved_def
proof (intro conjI allI impI)
  fix g
  show "queryFailure steadyEnv g = None" by (simp add: steadyEnv_def planarEnv_def)
next
  fix g d a
  assume "bufferGeometry steadyEnv g d = Some a"
  then show "isPolygonal a"
    by (auto simp: steadyEnv_def planarEnv_def boxBuffer_def Let_def isPolygonal_def
             split: if_splits)
next
  fix gs :: "Geometry list"
  assume "gs \<noteq> []"
  then show "centroid steadyEnv gs \<noteq> None"
    by (simp add: steadyEnv_def planarEnv_def split: option.splits)
qed

lemma inj_uuid_steadyEnv: "inj (uuid steadyEnv)"
proof (rule injI)
  fix x y
  assume "uuid steadyEnv x = uuid steadyEnv y"
  then have "replicate x (CHR ''i'') = replicate y (CHR ''i'')"
    by (simp add: steadyEnv_def planarEnv_def)
  then have "length (replicate x (CHR ''i'')) = length (replicate y (CHR ''i''))" by simp
  then show "x = y" by simp
qed

lemma fresh_uuid_nordicValley:
  "\<forall>j. uuid steadyEnv (0 + j) \<notin> key ` set nordicValley"
  by (simp add: steadyEnv_def planarEnv_def nordicValley_def runOf_def)

text \<open>
  Witness for C8: the three runs of the nordic valley.
\<close>

theorem synthesis_terminates_witness:
  "nextUnassignedRun nordicValley = Inr (Some (nordicValley ! 0)) \<and>
   generateSkiAreaForRun steadyEnv ''g'' nordicValley (nordicValley ! 0)
     = Some (Inr (markSkiArea ''g'' False [nordicValley ! 0, nordicValley ! 2]
                   (nordicValley @ [draftSkiArea steadyEnv ''g'' [Nordic] (Point (0, 15/16))]))) \<and>
   length (filter isBasisForNewSkiArea
             (markSkiArea ''g'' False [nordicValley ! 0, nordicValley ! 2]
                (nordicValley @ [draftSkiArea steadyEnv ''g'' [Nordic] (Point (0, 15/16))])))
     < length (filter isBasisForNewSkiArea nordicValley) \<and>
   wellBehaved steadyEnv \<and> inj (uuid steadyEnv) \<and>
   (\<forall>j. uuid steadyEnv (0 + j) \<notin> key ` set nordicValley) \<and>
   (\<exists>r. generateSkiAreasForUnassignedObjects
           (Suc (length (filter isBasisForNewSkiArea nordicValley))) steadyEnv 0 nordicValley
         = Some r)"
proof -
  let ?s' = "markSkiArea ''g'' False [nordicValley ! 0, nordicValley ! 2]
               (nordicValley @ [draftSkiArea steadyEnv ''g'' [Nordic] (Point (0, 15/16))])"
  have h1: "nextUnassignedRun nordicValley = Inr (Some (nordicValley ! 0))" by code_simp
  have h2: "generateSkiAreaForRun steadyEnv ''g'' nordicValley (nordicValley ! 0)
              = Some (Inr ?s')"
    by code_simp
  note t = synthesis_terminates [of nordicValley "nordicValley ! 0" steadyEnv "''g''" ?s' 0]
  from t h1 h2 have a: "length (filter isBasisForNewSkiArea ?s')
                          < length (filter isBasisForNewSkiArea nordicValley)"
    by blast
  from t wellBehaved_steadyEnv inj_uuid_steadyEnv fresh_uuid_nordicValley
  have b: "\<exists>r. generateSkiAreasForUnassignedObjects
           (Suc (length (filter isBasisForNewSkiArea nordicValley))) steadyEnv 0 nordicValley
         = Some r"
    by blast
  from h1 h2 a wellBehaved_steadyEnv inj_uuid_steadyEnv fresh_uuid_nordicValley b
  show ?thesis by (intro conjI)
qed

text \<open>
  Counterexample to claim C7 as stated. The first run waiting for a ski area has no
  activities: \<^verbatim>\<open>nextUnassignedRun\<close> raises in the condition of the loop, outside the
  \<^verbatim>\<open>try\<close>, and the phase and the pipeline end with this exception; the second run is
  never looked at.
\<close>

theorem synthesis_aborts_on_run_without_activities:
  "generateSkiAreasForUnassignedObjects 3 planarEnv 0 brokenValley
     = Some (Inl NoActivitiesForRun) \<and>
   clusterArangoGraph 3 planarEnv brokenValley = Some (Inl NoActivitiesForRun)"
  by code_simp

lemma synthesis_raises_only_NoActivitiesForRun:
  "generateSkiAreasForUnassignedObjects n env k s = Some (Inl e) \<Longrightarrow> e = NoActivitiesForRun"
proof (induction n arbitrary: k s)
  case 0
  then show ?case by simp
next
  case (Suc n)
  show ?case
  proof (cases "nextUnassignedRun s")
    case (Inl e')
    with Suc.prems nextUnassignedRun_Inl [OF Inl] show ?thesis by simp
  next
    case (Inr next')
    show ?thesis
    proof (cases next')
      case None
      with Suc.prems Inr show ?thesis by simp
    next
      case (Some run)
      show ?thesis
      proof (cases "generateSkiAreaForRun env (uuid env k) s run")
        case None
        with Suc.prems Inr Some show ?thesis by simp
      next
        case g: (Some r)
        show ?thesis
        proof (cases r)
          case (Inl exception)
          with Suc.prems Inr Some g
          have "generateSkiAreasForUnassignedObjects n env (Suc k) s = Some (Inl e)" by simp
          then show ?thesis by (rule Suc.IH)
        next
          case r: (Inr s')
          with Suc.prems Inr Some g
          have "generateSkiAreasForUnassignedObjects n env (Suc k) s' = Some (Inl e)" by simp
          then show ?thesis by (rule Suc.IH)
        qed
      qed
    qed
  qed
qed

text \<open>
  Claim C7, amended. An exception of \<^verbatim>\<open>generateSkiAreaForRun\<close> is caught: the loop
  goes on with its next call of \<^verbatim>\<open>nextUnassignedRun\<close>. The phase raises only what
  \<^verbatim>\<open>nextUnassignedRun\<close> raises, the exception for a run without activities, and it does
  raise then.
\<close>

theorem synthesis_failures_are_caught:
  "(generateSkiAreasForUnassignedObjects n env k s = Some (Inl e) \<longrightarrow> e = NoActivitiesForRun) \<and>
   (nextUnassignedRun s = Inr (Some run) \<and>
    generateSkiAreaForRun env (uuid env k) s run = Some (Inl e') \<longrightarrow>
      generateSkiAreasForUnassignedObjects (Suc n) env k s
        = generateSkiAreasForUnassignedObjects n env (Suc k) s) \<and>
   (nextUnassignedRun s = Inl e'' \<longrightarrow>
      generateSkiAreasForUnassignedObjects (Suc n) env k s = Some (Inl NoActivitiesForRun))"
proof (intro conjI impI)
  assume "generateSkiAreasForUnassignedObjects n env k s = Some (Inl e)"
  then show "e = NoActivitiesForRun" by (rule synthesis_raises_only_NoActivitiesForRun)
next
  assume "nextUnassignedRun s = Inr (Some run) \<and>
          generateSkiAreaForRun env (uuid env k) s run = Some (Inl e')"
  then show "generateSkiAreasForUnassignedObjects (Suc n) env k s
               = generateSkiAreasForUnassignedObjects n env (Suc k) s"
    by simp
next
  assume a: "nextUnassignedRun s = Inl e''"
  from nextUnassignedRun_Inl [OF a] a
  show "generateSkiAreasForUnassignedObjects (Suc n) env k s = Some (Inl NoActivitiesForRun)"
    by simp
qed

text \<open>
  Witness for the amended C7: a database whose queries time out makes every synthesis
  fail, and the loop goes on; the valley with a run without activities aborts.
\<close>

theorem synthesis_failures_are_caught_witness:
  "generateSkiAreasForUnassignedObjects 3 planarEnv 0 brokenValley
     = Some (Inl NoActivitiesForRun) \<and>
   nextUnassignedRun nordicValley = Inr (Some (nordicValley ! 0)) \<and>
   generateSkiAreaForRun timeoutEnv (uuid timeoutEnv 0) nordicValley (nordicValley ! 0)
     = Some (Inl (QueryError ''query killed: timeout'')) \<and>
   generateSkiAreasForUnassignedObjects (Suc 2) timeoutEnv 0 nordicValley
     = generateSkiAreasForUnassignedObjects 2 timeoutEnv (Suc 0) nordicValley \<and>
   nextUnassignedRun brokenValley = Inl NoActivitiesForRun \<and>
   generateSkiAreasForUnassignedObjects (Suc 2) planarEnv 0 brokenValley
     = Some (Inl NoActivitiesForRun)"
proof -
  have h0: "generateSkiAreasForUnassignedObjects 3 planarEnv 0 brokenValley
              = Some (Inl NoActivitiesForRun)"
    by code_simp
  have h1: "nextUnassignedRun nordicValley = Inr (Some (nordicValley ! 0))" by code_simp
  have h2: "generateSkiAreaForRun timeoutEnv (uuid timeoutEnv 0) nordicValley (nordicValley ! 0)
              = Some (Inl (QueryError ''query killed: timeout''))"
    by code_simp
  have h3: "nextUnassignedRun brokenValley = Inl NoActivitiesForRun" by code_simp
  note t = synthesis_failures_are_caught
  from t [where n = 3 and env = planarEnv and k = 0 and s = brokenValley
             and e = NoActivitiesForRun] h0
  have a: "NoActivitiesForRun = NoActivitiesForRun" by blast
  from t [where n = 2 and env = timeoutEnv and k = 0 and s = nordicValley
             and run = "nordicValley ! 0" and e' = "QueryError ''query killed: timeout''"] h1 h2
  have b: "generateSkiAreasForUnassignedObjects (Suc 2) timeoutEnv 0 nordicValley
             = generateSkiAreasForUnassignedObjects 2 timeoutEnv (Suc 0) nordicValley"
    by blast
  from t [where n = 2 and env = planarEnv and k = 0 and s = brokenValley
             and e'' = NoActivitiesForRun] h3
  have c: "generateSkiAreasForUnassignedObjects (Suc 2) planarEnv 0 brokenValley
             = Some (Inl NoActivitiesForRun)"
    by blast
  from h0 h1 h2 b h3 c show ?thesis by (intro conjI)
qed

text \<open>
  Counterexample to claim C4 as stated. Phase 4 on a single nordic run creates a ski
  area with \<^verbatim>\<open>generated\<close> and the source OpenStreetMap, at the centroid of the run, and
  with \<^verbatim>\<open>isPolygon\<close> true.
\<close>

theorem generated_ski_area_is_polygon_at_synthesis:
  "map_option (map_sum id (map (\<lambda>x. (key x, generated (properties x), source x,
                                        isPolygon x, geometry x))))
     (generateSkiAreasForUnassignedObjects 2 planarEnv 0 orphanRun)
   = Some (Inr [(''n'', False, OPENSTREETMAP, False, LineString [(0, 0), (0, 1)]),
                (''generated-'', True, OPENSTREETMAP, True, Point (0, 1/2))])"
  by code_simp

lemma markSkiArea_fields:
  assumes "x' \<in> set (markSkiArea i b members s)"
  shows "\<exists>x \<in> set s. key x' = key x \<and> properties x' = properties x \<and> source x' = source x \<and>
           isPolygon x' = isPolygon x \<and> geometry x' = geometry x \<and> otype x' = otype x"
proof -
  from assms obtain x where x: "x \<in> set s"
    and x': "x' = (if key x \<in> set (map key members)
                  then x\<lparr>isBasisForNewSkiArea := False,
                         isInSkiAreaPolygon := (isInSkiAreaPolygon x \<or> b),
                         skiAreas := aqlAppendUnique (skiAreas x) [i]\<rparr>
                  else x)"
    by (auto simp: markSkiArea_def)
  show ?thesis
    by (rule bexI [OF _ x]) (simp add: x')
qed

lemma markSkiArea_keys: "map key (markSkiArea i b members s) = map key s"
  by (simp add: markSkiArea_def comp_def if_distrib cong: if_cong)

text \<open>
  Claim C4, amended. The record that \<^verbatim>\<open>createGeneratedSkiArea\<close> saves has
  \<^verbatim>\<open>generated\<close>, the source OpenStreetMap, \<^verbatim>\<open>isPolygon\<close> true and the centroid of the
  member geometries as its geometry. The augmentation of phase 5 of a ski area with
  members keeps \<^verbatim>\<open>generated\<close> and the source, sets \<^verbatim>\<open>isPolygon\<close> to false and the
  geometry to the centroid of the geometries of the members it is given.
\<close>

theorem generated_ski_area_record:
  "(createGeneratedSkiArea env newId acts members s = Some (Inr s') \<longrightarrow>
      (\<exists>g. centroid env (map geometry members) = Some g \<and>
           (\<exists>x \<in> set s'. key x = newId) \<and>
           (\<forall>x \<in> set s'. key x = newId \<longrightarrow>
              generated (properties x) \<and> source x = OPENSTREETMAP \<and> isPolygon x \<and>
              geometry x = g))) \<and>
   (augmentSkiAreaBasedOnAssignedLiftsAndRuns env s skiArea members = Some (Inr s') \<and>
    members \<noteq> [] \<longrightarrow>
      (\<exists>g. centroid env (map geometry members) = Some g \<and>
           (\<exists>x \<in> set s'. key x = ident skiArea) \<and>
           (\<forall>x \<in> set s'. key x = ident skiArea \<longrightarrow>
              generated (properties x) = generated (properties skiArea) \<and>
              source x = source skiArea \<and> \<not> isPolygon x \<and> geometry x = g)))"
proof (intro conjI impI)
  assume "createGeneratedSkiArea env newId acts members s = Some (Inr s')"
  then obtain g where g: "centroid env (map geometry members) = Some g"
    and fresh: "\<not> hasKey newId s"
    and s': "s' = markSkiArea newId False members (s @ [draftSkiArea env newId acts g])"
    unfolding createGeneratedSkiArea_Inr by blast
  have "newId \<in> set (map key s')"
    unfolding s' markSkiArea_keys by (simp add: draftSkiArea_def)
  then have ex: "\<exists>x \<in> set s'. key x = newId" by auto
  have all: "\<forall>x \<in> set s'. key x = newId \<longrightarrow>
              generated (properties x) \<and> source x = OPENSTREETMAP \<and> isPolygon x \<and>
              geometry x = g"
  proof (intro ballI impI)
    fix x'
    assume x': "x' \<in> set s'" and k: "key x' = newId"
    from markSkiArea_fields [OF x' [unfolded s']] obtain x where
      x: "x \<in> set (s @ [draftSkiArea env newId acts g])"
      and e: "key x' = key x" "properties x' = properties x" "source x' = source x"
        "isPolygon x' = isPolygon x" "geometry x' = geometry x"
      by blast
    have "x \<notin> set s" using fresh k e(1) by (auto simp: hasKey_def)
    with x have "x = draftSkiArea env newId acts g" by simp
    then show "generated (properties x') \<and> source x' = OPENSTREETMAP \<and> isPolygon x' \<and>
               geometry x' = g"
      using e by (simp add: draftSkiArea_def)
  qed
  from g ex all
  show "\<exists>g. centroid env (map geometry members) = Some g \<and>
           (\<exists>x \<in> set s'. key x = newId) \<and>
           (\<forall>x \<in> set s'. key x = newId \<longrightarrow>
              generated (properties x) \<and> source x = OPENSTREETMAP \<and> isPolygon x \<and>
              geometry x = g)"
    by blast
next
  assume a: "augmentSkiAreaBasedOnAssignedLiftsAndRuns env s skiArea members = Some (Inr s') \<and>
             members \<noteq> []"
  then have ne: "members \<noteq> []" by simp
  from a obtain g where g: "centroid env (map geometry members) = Some g"
    by (cases "centroid env (map geometry members)")
       (auto simp: augmentSkiAreaBasedOnAssignedLiftsAndRuns_def Let_def)
  from a ne g obtain patch where
    u: "collection_update (ident skiArea) (\<lambda>_. patch) s = Inr s'"
    and p: "generated (properties patch) = generated (properties skiArea)"
      "source patch = source skiArea" "\<not> isPolygon patch" "geometry patch = g"
    by (auto simp: augmentSkiAreaBasedOnAssignedLiftsAndRuns_def Let_def
             split: option.splits)
  from u have h: "hasKey (ident skiArea) s"
    and s': "s' = map (\<lambda>object. if key object = ident skiArea
                        then patch\<lparr>key := ident skiArea\<rparr> else object) s"
    by (simp_all add: collection_update_Inr)
  have "map key s' = map key s" unfolding s' by (induction s) simp_all
  then have "key ` set s' = key ` set s" by (metis set_map)
  moreover have "ident skiArea \<in> key ` set s" using h unfolding hasKey_def by (metis imageI)
  ultimately have "ident skiArea \<in> key ` set s'" by simp
  then have ex: "\<exists>x \<in> set s'. key x = ident skiArea" by auto
  have all: "\<forall>x \<in> set s'. key x = ident skiArea \<longrightarrow>
              generated (properties x) = generated (properties skiArea) \<and>
              source x = source skiArea \<and> \<not> isPolygon x \<and> geometry x = g"
    unfolding s' using p by auto
  from g ex all
  show "\<exists>g. centroid env (map geometry members) = Some g \<and>
           (\<exists>x \<in> set s'. key x = ident skiArea) \<and>
           (\<forall>x \<in> set s'. key x = ident skiArea \<longrightarrow>
              generated (properties x) = generated (properties skiArea) \<and>
              source x = source skiArea \<and> \<not> isPolygon x \<and> geometry x = g)"
    by blast
qed

text \<open>
  Witness for the amended C4: the ski area of the counterexample, created and then
  augmented.
\<close>

theorem generated_ski_area_record_witness:
  "createGeneratedSkiArea planarEnv ''g'' [Nordic] [orphanRun ! 0] orphanRun
     = Some (Inr orphanRunSynthesized) \<and>
   (\<exists>g. centroid planarEnv (map geometry [orphanRun ! 0]) = Some g \<and>
        (\<exists>x \<in> set orphanRunSynthesized. key x = ''g'') \<and>
        (\<forall>x \<in> set orphanRunSynthesized. key x = ''g'' \<longrightarrow>
           generated (properties x) \<and> source x = OPENSTREETMAP \<and> isPolygon x \<and>
           geometry x = g)) \<and>
   augmentSkiAreaBasedOnAssignedLiftsAndRuns planarEnv orphanRunSynthesized
     (orphanRunSynthesized ! 1) [orphanRunSynthesized ! 0] = Some (Inr orphanRunAugmented) \<and>
   [orphanRunSynthesized ! 0] \<noteq> [] \<and>
   (\<exists>g. centroid planarEnv (map geometry [orphanRunSynthesized ! 0]) = Some g \<and>
        (\<exists>x \<in> set orphanRunAugmented. key x = ident (orphanRunSynthesized ! 1)) \<and>
        (\<forall>x \<in> set orphanRunAugmented. key x = ident (orphanRunSynthesized ! 1) \<longrightarrow>
           generated (properties x) = generated (properties (orphanRunSynthesized ! 1)) \<and>
           source x = source (orphanRunSynthesized ! 1) \<and> \<not> isPolygon x \<and> geometry x = g))"
proof -
  have h1: "createGeneratedSkiArea planarEnv ''g'' [Nordic] [orphanRun ! 0] orphanRun
              = Some (Inr orphanRunSynthesized)"
    by code_simp
  have h2: "augmentSkiAreaBasedOnAssignedLiftsAndRuns planarEnv orphanRunSynthesized
              (orphanRunSynthesized ! 1) [orphanRunSynthesized ! 0]
              = Some (Inr orphanRunAugmented)"
    by code_simp
  have h3: "[orphanRunSynthesized ! 0] \<noteq> []" by simp
  note t = generated_ski_area_record
  from t [where env = planarEnv and newId = "''g''" and acts = "[Nordic]"
            and members = "[orphanRun ! 0]" and s = orphanRun and s' = orphanRunSynthesized,
          THEN conjunct1, rule_format, OF h1]
  have c1: "\<exists>g. centroid planarEnv (map geometry [orphanRun ! 0]) = Some g \<and>
        (\<exists>x \<in> set orphanRunSynthesized. key x = ''g'') \<and>
        (\<forall>x \<in> set orphanRunSynthesized. key x = ''g'' \<longrightarrow>
           generated (properties x) \<and> source x = OPENSTREETMAP \<and> isPolygon x \<and>
           geometry x = g)" .
  from t [where env = planarEnv and s = orphanRunSynthesized
            and skiArea = "orphanRunSynthesized ! 1"
            and members = "[orphanRunSynthesized ! 0]" and s' = orphanRunAugmented,
          THEN conjunct2, rule_format, OF conjI [OF h2 h3]]
  have c2: "\<exists>g. centroid planarEnv (map geometry [orphanRunSynthesized ! 0]) = Some g \<and>
        (\<exists>x \<in> set orphanRunAugmented. key x = ident (orphanRunSynthesized ! 1)) \<and>
        (\<forall>x \<in> set orphanRunAugmented. key x = ident (orphanRunSynthesized ! 1) \<longrightarrow>
           generated (properties x) = generated (properties (orphanRunSynthesized ! 1)) \<and>
           source x = source (orphanRunSynthesized ! 1) \<and> \<not> isPolygon x \<and> geometry x = g)" .
  from h1 c1 h2 h3 c2 show ?thesis by (intro conjI)
qed

section \<open>The async functions run alone\<close>

text \<open>
  Run with no other call between its calls, each async function of the section on
  batches is the function of the store defined for it before: the traversal, the search
  for ski areas to merge, the merge, and the bodies of the three loops.
\<close>

lemma runTask_bindP:
  "runTask (bindP m k) s = bindR (runTask m s) (\<lambda>(s', x). runTask (k x) s')"
  by (induction m arbitrary: s) (auto simp: bindR_def split: sum.splits)

lemma visit_alone:
  "runTask (visitObjectAsync n env c v object) s
     = bindR (visitObject n env s c v object) (\<lambda>r. Some (Inr (s, r)))"
  "runTask (visitPolygonAsync n env c v g) s
     = bindR (visitPolygon n env s c v g) (\<lambda>r. Some (Inr (s, r)))"
  "runTask (visitPolygonsAsync n env c v css) s
     = bindR (visitPolygons n env s c v css) (\<lambda>r. Some (Inr (s, r)))"
  "runTask (visitObjectsAsync n env c v objects) s
     = bindR (visitObjects n env s c v objects) (\<lambda>r. Some (Inr (s, r)))"
proof (induction n env s c v object and n env s c v g and n env s c v css and n env s c v objects
    rule: visitObject_visitPolygon_visitPolygons_visitObjects.induct)
  case (1 env s c v object)
  show ?case by (simp add: bindR_def)
next
  case (2 n env s c v object)
  show ?case
  proof (cases "searchAreaOf env c object")
    case None
    then show ?thesis by (simp add: bindR_def)
  next
    case (Some area)
    show ?thesis
    proof (cases area)
      case (Polygon cs)
      with Some 2(1) show ?thesis
        by (auto simp: runTask_bindP bindR_def split: option.splits sum.splits)
    next
      case (MultiPolygon css)
      with Some 2(2) show ?thesis
        by (auto simp: runTask_bindP bindR_def split: option.splits sum.splits)
    qed (simp_all add: Some bindR_def)
  qed
next
  case (3 n env s c v g)
  show ?case
  proof (cases "findNearbyObjects env s g
             (if searchPolygon c \<noteq> None then Contains else Intersects) c v")
    case (Inl e)
    then show ?thesis by (simp add: bindR_def)
  next
    case (Inr r)
    obtain objects v' where r: "r = (objects, v')" by (cases r)
    show ?thesis
    proof (cases "searchPolygon c \<noteq> None")
      case True
      with Inr r show ?thesis by (simp add: bindR_def)
    next
      case False
      with 3 [OF Inr [unfolded r] refl] Inr r show ?thesis by simp
    qed
  qed
next
  case (4 n env s c v)
  show ?case by (simp add: bindR_def)
next
  case (5 n env s c v cs css)
  show ?case
  proof (cases "visitPolygon n env s c v (Polygon cs)")
    case None
    with 5(1) show ?thesis by (simp add: runTask_bindP bindR_def)
  next
    case (Some r)
    show ?thesis
    proof (cases r)
      case (Inl e)
      with Some 5(1) show ?thesis by (simp add: runTask_bindP bindR_def)
    next
      case (Inr fv)
      obtain found v' where fv: "fv = (found, v')" by (cases fv)
      from 5(2) [OF Some [unfolded Inr fv] refl]
      have "runTask (visitPolygonsAsync n env c v' css) s
              = bindR (visitPolygons n env s c v' css) (\<lambda>r. Some (Inr (s, r)))" .
      with Some Inr fv 5(1) show ?thesis
        by (auto simp: runTask_bindP bindR_def split: option.splits sum.splits)
    qed
  qed
next
  case (6 n env s c v)
  show ?case by (simp add: bindR_def)
next
  case (7 n env s c v object objects)
  show ?case
  proof (cases "visitObject n env s c v object")
    case None
    with 7(1) show ?thesis by (simp add: runTask_bindP bindR_def)
  next
    case (Some r)
    show ?thesis
    proof (cases r)
      case (Inl e)
      with Some 7(1) show ?thesis by (simp add: runTask_bindP bindR_def)
    next
      case (Inr fv)
      obtain found v' where fv: "fv = (found, v')" by (cases fv)
      from 7(2) [OF Some [unfolded Inr fv] refl]
      have "runTask (visitObjectsAsync n env c v' objects) s
              = bindR (visitObjects n env s c v' objects) (\<lambda>r. Some (Inr (s, r)))" .
      with Some Inr fv 7(1) show ?thesis
        by (auto simp: runTask_bindP bindR_def split: option.splits sum.splits)
    qed
  qed
qed

lemma traverse_alone:
  "runTask (traverseAsync (Suc (length s)) env c object) s
     = bindR (traverse env s c object) (\<lambda>r. Some (Inr (s, r)))"
  unfolding traverseAsync_def traverse_def runTask_bindP visit_alone(1)
  by (cases "visitObject (Suc (length s)) env s c [key object] object")
     (auto simp: bindR_def split: sum.splits simp del: visitObject.simps)

lemma getSkiAreasToMerge_alone:
  "runTask (getSkiAreasToMergeAsync env skiArea) s
     = bindR (getSkiAreasToMerge env s skiArea) (\<lambda>r. Some (Inr (s, r)))"
  unfolding getSkiAreasToMergeAsync_def getSkiAreasToMerge_def
  by (auto simp: bindR_def Let_def split: option.splits sum.splits)

lemma mergeSkiAreas_alone:
  "runTask (mergeSkiAreasAsync env skiAreas') s
     = bindR (mergeSkiAreas env s skiAreas') (\<lambda>s'. Some (Inr (s', ())))"
  unfolding mergeSkiAreasAsync_def mergeSkiAreas_def
  by (auto simp: bindR_def Let_def split: option.splits sum.splits)

lemma runTask_bindP_alone:
  assumes "runTask m s = bindR r (\<lambda>x. Some (Inr (s, x)))"
    and "\<And>x. runTask (k x) s = bindR (k' x) (\<lambda>s'. Some (Inr (s', ())))"
  shows "runTask (bindP m k) s = bindR (bindR r k') (\<lambda>s'. Some (Inr (s', ())))"
  unfolding runTask_bindP assms(1)
  by (cases r) (auto simp: bindR_def assms(2) split: sum.splits)

lemma assign_alone:
  "runTask (assignObjectsToSkiAreaAsync (Suc (length s)) env options skiArea) s
     = bindR (assignObjectsToSkiArea env options s skiArea) (\<lambda>s'. Some (Inr (s', ())))"
  unfolding assignObjectsToSkiAreaAsync_def assignObjectsToSkiArea_def Let_def
  apply (cases "prop_id (properties skiArea) = []")
  subgoal by (simp add: bindR_def)
  apply (simp only: simp_thms if_False)
  apply (rule runTask_bindP_alone)
  subgoal by (simp add: getSkiAreasToMerge_alone bindR_def)
  subgoal for x
    apply (cases "mergeWithOtherSourceIfNearby options \<and> 0 < length x")
    subgoal by (simp only: simp_thms if_True mergeSkiAreas_alone)
    apply (simp only: simp_thms if_False)
    apply (cases "onlyInPolygon options \<and> \<not> isPolygonal (geometry skiArea)")
    subgoal by (simp only: simp_thms if_True runTask.simps bindR_def option.case sum.case)
    apply (simp only: simp_thms if_False)
    apply (rule runTask_bindP_alone)
    subgoal by (rule traverse_alone)
    subgoal for members
      by (simp add: bindR_def split: sum.splits)
    done
  done

lemma removeAmbiguous_alone:
  "runTask (removeAmbiguousDuplicateSkiAreaAsync env skiArea) s
     = bindR (removeAmbiguousDuplicateSkiArea env s skiArea) (\<lambda>s'. Some (Inr (s', ())))"
  unfolding removeAmbiguousDuplicateSkiAreaAsync_def removeAmbiguousDuplicateSkiArea_def
  by (auto simp: bindR_def split: option.splits sum.splits)

lemma augment_alone:
  "runTask (augmentSkiAreaAsync env skiArea) s
     = bindR (augmentSkiAreaBasedOnAssignedLiftsAndRuns env s skiArea
                (getObjects (ident skiArea) s))
         (\<lambda>s'. Some (Inr (s', ())))"
  unfolding augmentSkiAreaAsync_def augmentSkiAreaBasedOnAssignedLiftsAndRunsAsync_def
    augmentSkiAreaBasedOnAssignedLiftsAndRuns_def Let_def
  by (auto simp: bindR_def split: option.splits sum.splits)

text \<open>
  A batch of one ski area is its body run alone, whatever the choices; so is a cursor of
  one ski area.
\<close>

lemma runBatch_single:
  "runBatch choices [p] s = bindR (runTask p s) (\<lambda>(s', u). Some (Inr s'))"
proof (induction choices arbitrary: p s)
  case Nil
  show ?case by (auto simp: bindR_def split: option.splits sum.splits)
next
  case (Cons i choices)
  show ?case
  proof (cases p)
    case (Return u)
    then show ?thesis by (simp add: atWork_def bindR_def)
  next
    case (Raise e)
    then show ?thesis by (simp add: bindR_def)
  next
    case Cutoff
    then show ?thesis by (simp add: atWork_def bindR_def)
  next
    case (Read f)
    then show ?thesis using Cons [of "f s" s] by (simp add: atWork_def)
  next
    case (Write w q)
    then show ?thesis using Cons [of q] by (simp add: atWork_def bindR_def split: sum.splits)
  qed
qed

lemma forEachSkiArea_single:
  "forEachSkiArea env phase body [c] s
     = bindR (runTask (body (Suc (length s)) c) s) (\<lambda>(s', u). Some (Inr s'))"
  by (simp add: forEachSkiArea_def batchSize_def batchesOf.simps runBatch_single bindR_def
      split: option.splits sum.splits)

section \<open>What a batch maintains\<close>

text \<open>
  The rule for every property \<open>G\<close> of the bodies of a batch and the store: when each
  call that is answered maintains it, it holds when the batch has returned, whatever the
  choices.
\<close>

lemma firstRaised_None: "firstRaised ps = None \<Longrightarrow> Raise e \<notin> set ps"
  by (induction ps rule: firstRaised.induct) auto

lemma atWork_member: "j \<in> set (atWork ps) \<Longrightarrow> j < length ps"
  by (simp add: atWork_def)

lemma atWork_Nil:
  assumes "atWork ps = []" and "firstRaised ps = None"
  shows "\<forall>p \<in> set ps. p = Return ()"
proof
  fix p assume "p \<in> set ps"
  then obtain j where j: "j < length ps" "ps ! j = p" by (auto simp: in_set_conv_nth)
  from assms(1) j have "j \<notin> set (atWork ps)" by simp
  with j have "case p of Return _ \<Rightarrow> True | Raise _ \<Rightarrow> True | _ \<Rightarrow> False"
    by (auto simp: atWork_def split: proc.splits)
  moreover from firstRaised_None [OF assms(2)] \<open>p \<in> set ps\<close> have "\<And>e. p \<noteq> Raise e" by auto
  ultimately show "p = Return ()" by (cases p) auto
qed

lemma runTask_invariant:
  assumes r: "\<And>ps s j f. G ps s \<Longrightarrow> j < length ps \<Longrightarrow> ps ! j = Read f \<Longrightarrow> G (ps[j := f s]) s"
    and w: "\<And>ps s j w p s'. G ps s \<Longrightarrow> j < length ps \<Longrightarrow> ps ! j = Write w p \<Longrightarrow> w s = Inr s'
              \<Longrightarrow> G (ps[j := p]) s'"
  shows "G ps s \<Longrightarrow> j < length ps \<Longrightarrow> ps ! j = q \<Longrightarrow> runTask q s = Some (Inr (s', u))
           \<Longrightarrow> G (ps[j := Return u]) s'"
proof (induction q arbitrary: ps s)
  case (Return x)
  then have "ps[j := Return u] = ps" and "s' = s" by (auto simp: list_update_same_conv)
  with Return show ?case by simp
next
  case (Raise e)
  then show ?case by simp
next
  case Cutoff
  then show ?case by simp
next
  case (Read f)
  from r [OF Read.prems(1,2,3)] have g: "G (ps[j := f s]) s" .
  from Read.prems have run: "runTask (f s) s = Some (Inr (s', u))" by simp
  have "G (ps[j := f s, j := Return u]) s'"
    by (rule Read.IH [OF _ g _ _ run]) (use Read.prems in auto)
  then show ?case by simp
next
  case (Write wr p)
  from Write.prems(4) obtain s1 where s1: "wr s = Inr s1"
    and run: "runTask p s1 = Some (Inr (s', u))"
    by (auto split: sum.splits)
  from w [OF Write.prems(1,2,3) s1] have g: "G (ps[j := p]) s1" .
  have "G (ps[j := p, j := Return u]) s'"
    by (rule Write.IH [OF g _ _ run]) (use Write.prems in auto)
  then show ?case by simp
qed

lemma runEach_invariant:
  assumes r: "\<And>ps s j f. G ps s \<Longrightarrow> j < length ps \<Longrightarrow> ps ! j = Read f \<Longrightarrow> G (ps[j := f s]) s"
    and w: "\<And>ps s j w p s'. G ps s \<Longrightarrow> j < length ps \<Longrightarrow> ps ! j = Write w p \<Longrightarrow> w s = Inr s'
              \<Longrightarrow> G (ps[j := p]) s'"
  shows "G (rs @ qs) s \<Longrightarrow> \<forall>p \<in> set rs. p = Return () \<Longrightarrow> runEach qs s = Some (Inr s')
           \<Longrightarrow> \<exists>ps'. length ps' = length (rs @ qs) \<and> (\<forall>p \<in> set ps'. p = Return ()) \<and> G ps' s'"
proof (induction qs arbitrary: rs s)
  case Nil
  then show ?case by auto
next
  case (Cons q qs)
  from Cons.prems(3) obtain s1 u where run: "runTask q s = Some (Inr (s1, u))"
    and rest: "runEach qs s1 = Some (Inr s')"
    by (auto simp: bindR_def split: option.splits sum.splits)
  have "G ((rs @ q # qs)[length rs := Return u]) s1"
  proof (rule runTask_invariant [where G = G and ps = "rs @ q # qs" and s = s and q = q])
    show "G (rs @ q # qs) s" by (rule Cons.prems(1))
    show "runTask q s = Some (Inr (s1, u))" by (rule run)
  qed (simp_all add: r w)
  then have g: "G ((rs @ [Return ()]) @ qs) s1" by simp
  from Cons.IH [OF g _ rest] Cons.prems(2) show ?case by auto
qed

lemma runBatch_invariant:
  assumes r: "\<And>ps s j f. G ps s \<Longrightarrow> j < length ps \<Longrightarrow> ps ! j = Read f \<Longrightarrow> G (ps[j := f s]) s"
    and w: "\<And>ps s j w p s'. G ps s \<Longrightarrow> j < length ps \<Longrightarrow> ps ! j = Write w p \<Longrightarrow> w s = Inr s'
              \<Longrightarrow> G (ps[j := p]) s'"
  shows "G ps s \<Longrightarrow> runBatch choices ps s = Some (Inr s')
           \<Longrightarrow> \<exists>ps'. length ps' = length ps \<and> (\<forall>p \<in> set ps'. p = Return ()) \<and> G ps' s'"
proof (induction choices arbitrary: ps s)
  case Nil
  from Nil.prems(2) have "runEach ps s = Some (Inr s')" by simp
  have "\<exists>ps'. length ps' = length ([] @ ps) \<and> (\<forall>p \<in> set ps'. p = Return ()) \<and> G ps' s'"
  proof (rule runEach_invariant [where G = G and rs = "[]" and qs = ps and s = s])
    show "G ([] @ ps) s" using Nil.prems(1) by simp
    show "runEach ps s = Some (Inr s')" by fact
  qed (simp_all add: r w)
  then show ?case by simp
next
  case (Cons i choices)
  from Cons.prems(2) have nr: "firstRaised ps = None"
    by (auto split: option.splits)
  show ?case
  proof (cases "atWork ps")
    case Nil
    with Cons.prems(2) nr have "s' = s" by simp
    with atWork_Nil [OF Nil nr] Cons.prems(1) show ?thesis by auto
  next
    case (Cons j0 js)
    define j where "j = (j0 # js) ! (i mod Suc (length js))"
    have "j \<in> set (atWork ps)" unfolding j_def Cons [symmetric]
      by (rule nth_mem) (simp add: Cons)
    then have jl: "j < length ps" by (rule atWork_member)
    from Cons.prems(2) nr Cons
    have run: "(case ps ! j of
                  Read f \<Rightarrow> runBatch choices (ps[j := f s]) s
                | Write w p \<Rightarrow>
                    (case w s of
                       Inl e \<Rightarrow> Some (Inl e)
                     | Inr s' \<Rightarrow> runBatch choices (ps[j := p]) s')
                | _ \<Rightarrow> None) = Some (Inr s')"
      unfolding j_def by (simp add: Let_def)
    show ?thesis
    proof (cases "ps ! j")
      case (Read f)
      with run have "runBatch choices (ps[j := f s]) s = Some (Inr s')" by simp
      from Cons.IH [OF r [OF Cons.prems(1) jl Read] this] show ?thesis by simp
    next
      case (Write wr p)
      with run obtain s1 where s1: "wr s = Inr s1"
        and "runBatch choices (ps[j := p]) s1 = Some (Inr s')"
        by (auto split: sum.splits)
      from Cons.IH [OF w [OF Cons.prems(1) jl Write s1] this(2)] show ?thesis by simp
    qed (use run in simp_all)
  qed
qed


lemma keeps_weaken:
  assumes "keeps I Q m" and "\<And>x. Q x \<Longrightarrow> R x"
  shows "keeps I R m"
  using assms(1) by (induction m) (auto simp: assms(2))













section \<open>The phases, for every order of the answers\<close>























section \<open>Choices and orders of answers\<close>

text \<open>
  Every way in which the calls of the bodies of a batch can be answered until all have
  returned is the run of some list of choices, and every run of a list of choices that
  returns is such a way.
\<close>

lemma firstRaised_Some: "firstRaised ps = Some e \<Longrightarrow> Raise e \<in> set ps"
  by (induction ps rule: firstRaised.induct) auto

lemma answered_raised:
  assumes "answered ps s ps' s'" and "Raise e \<in> set ps"
  shows "Raise e \<in> set ps'"
  using assms
proof (induction rule: answered.induct)
  case (nothing ps s)
  then show ?case .
next
  case (reading j ps f s ps' s')
  from reading.prems obtain i where i: "i < length ps" "ps ! i = Raise e"
    by (auto simp: in_set_conv_nth)
  with reading.hyps(2) have "i \<noteq> j" by auto
  with i have "ps[j := f s] ! i = Raise e" "i < length (ps[j := f s])" by simp_all
  then have "Raise e \<in> set (ps[j := f s])" by (metis nth_mem)
  then show ?case by (rule reading.IH)
next
  case (writing j ps w p s s1 ps' s')
  from writing.prems obtain i where i: "i < length ps" "ps ! i = Raise e"
    by (auto simp: in_set_conv_nth)
  with writing.hyps(2) have "i \<noteq> j" by auto
  with i have "ps[j := p] ! i = Raise e" "i < length (ps[j := p])" by simp_all
  then have "Raise e \<in> set (ps[j := p])" by (metis nth_mem)
  then show ?case by (rule writing.IH)
qed

lemma runEach_returned: "\<forall>p \<in> set ps. p = Return () \<Longrightarrow> runEach ps s = Some (Inr s)"
  by (induction ps) (auto simp: bindR_def)

lemma atWork_choice:
  assumes "j < length ps" and "ps ! j = Read f \<or> ps ! j = Write w p"
  shows "\<exists>i j0 js. atWork ps = j0 # js \<and> (j0 # js) ! (i mod length (j0 # js)) = j"
proof -
  from assms have "j \<in> set (atWork ps)" by (auto simp: atWork_def)
  then obtain i where i: "i < length (atWork ps)" "atWork ps ! i = j"
    by (auto simp: in_set_conv_nth)
  then obtain j0 js where c: "atWork ps = j0 # js" by (cases "atWork ps") auto
  with i have "(j0 # js) ! (i mod length (j0 # js)) = j" by simp
  with c show ?thesis by blast
qed

lemma every_order_has_choices:
  assumes "answered ps s ps' s'" and "\<forall>p \<in> set ps'. p = Return ()"
  shows "\<exists>choices. runBatch choices ps s = Some (Inr s')"
  using assms
proof (induction rule: answered.induct)
  case (nothing ps s)
  then have "runBatch [] ps s = Some (Inr s)" by (simp add: runEach_returned)
  then show ?case ..
next
  case (reading j ps f s ps' s')
  from reading.IH [OF reading.prems] obtain choices where
    c: "runBatch choices (ps[j := f s]) s = Some (Inr s')" ..
  have nr: "firstRaised ps = None"
  proof (cases "firstRaised ps")
    case (Some e)
    from firstRaised_Some [OF this] have "Raise e \<in> set ps" .
    from answered_raised [OF answered.reading [OF reading.hyps] this] reading.prems
    show ?thesis by auto
  qed
  from atWork_choice [OF reading.hyps(1), of f] reading.hyps(2) obtain i j0 js where
    a: "atWork ps = j0 # js" "(j0 # js) ! (i mod length (j0 # js)) = j" by blast
  have "runBatch (i # choices) ps s = Some (Inr s')"
    using nr a reading.hyps(2) c by (simp add: Let_def del: length_Cons)
  then show ?case ..
next
  case (writing j ps w p s s1 ps' s')
  from writing.IH [OF writing.prems] obtain choices where
    c: "runBatch choices (ps[j := p]) s1 = Some (Inr s')" ..
  have nr: "firstRaised ps = None"
  proof (cases "firstRaised ps")
    case (Some e)
    from firstRaised_Some [OF this] have "Raise e \<in> set ps" .
    from answered_raised [OF answered.writing [OF writing.hyps] this] writing.prems
    show ?thesis by auto
  qed
  from atWork_choice [OF writing.hyps(1), of _ w p] writing.hyps(2) obtain i j0 js where
    a: "atWork ps = j0 # js" "(j0 # js) ! (i mod length (j0 # js)) = j" by blast
  have "runBatch (i # choices) ps s = Some (Inr s')"
    using nr a writing.hyps(2,3) c by (simp add: Let_def del: length_Cons)
  then show ?case ..
qed

lemma answered_read_last:
  assumes "answered ps s qs t" and "j < length qs" and "qs ! j = Read f"
  shows "answered ps s (qs[j := f t]) t"
  using assms
proof (induction rule: answered.induct)
  case (nothing ps s)
  from answered.reading [OF nothing.prems answered.nothing] show ?case .
next
  case (reading i ps g s ps' s')
  from answered.reading [OF reading.hyps(1,2) reading.IH [OF reading.prems]] show ?case .
next
  case (writing i ps w p s s1 ps' s')
  from answered.writing [OF writing.hyps(1,2,3) writing.IH [OF writing.prems]] show ?case .
qed

lemma answered_write_last:
  assumes "answered ps s qs t" and "j < length qs" and "qs ! j = Write w p" and "w t = Inr t'"
  shows "answered ps s (qs[j := p]) t'"
  using assms
proof (induction rule: answered.induct)
  case (nothing ps s)
  from answered.writing [OF nothing.prems answered.nothing] show ?case .
next
  case (reading i ps g s ps' s')
  from answered.reading [OF reading.hyps(1,2) reading.IH [OF reading.prems]] show ?case .
next
  case (writing i ps w' p' s s1 ps' s')
  from answered.writing [OF writing.hyps(1,2,3) writing.IH [OF writing.prems]] show ?case .
qed

lemma choices_are_an_order:
  assumes "runBatch choices ps s = Some (Inr s')"
  shows "\<exists>ps'. length ps' = length ps \<and> (\<forall>p \<in> set ps'. p = Return ()) \<and> answered ps s ps' s'"
proof (rule runBatch_invariant [where G = "answered ps s" and ps = ps and s = s
      and choices = choices])
  show "answered ps s ps s" by (rule answered.nothing)
  show "runBatch choices ps s = Some (Inr s')" by (rule assms)
next
  fix qs t j f
  assume "answered ps s qs t" "j < length qs" "qs ! j = Read f"
  then show "answered ps s (qs[j := f t]) t" by (rule answered_read_last)
next
  fix qs t j w p t'
  assume "answered ps s qs t" "j < length qs" "qs ! j = Write w p" "w t = Inr t'"
  then show "answered ps s (qs[j := p]) t'" by (rule answered_write_last)
qed







end
